theory Spec2Isabelle
  imports Main "HOL-Library.Word"
begin

unbundle bit_operations_syntax

section \<open>Data model\<close>

text \<open>
  The development follows the \<open>double\<close> instantiation of \<open>IEEE754Traits\<close>:
  \<open>IntegerType\<close> and \<open>Mantissa\<close> are \<open>std::uint64_t\<close>, \<open>ReducedMantissa\<close> is
  \<open>__uint128_t\<close>, \<open>Exponent\<close> is \<open>std::int32_t\<close>. Unsigned arithmetic wraps: the 64-bit
  types are machine words, and the 128-bit accumulator is a natural number below \<open>2 ^ 128\<close>
  whose multiplications and increments are reduced by \<open>wrap128\<close>. Signed overflow is
  undefined behaviour in C++ (and a hard error under constant evaluation), so an
  \<open>Exponent\<close> is a mathematical integer and every signed sum, difference, product or
  negation of a variable goes through \<open>checked\<close>, which reports \<open>SignedOverflow\<close> when the
  result leaves the \<open>int32_t\<close> range. A failing \<open>assert\<close> is the outcome
  \<open>AssertionFailed\<close>: the build keeps assertions enabled (CMakeLists.txt sets the release
  flags to \<open>-Ofast\<close> alone).
\<close>

type_synonym Mantissa = "64 word"
type_synonym Integer = "64 word"
type_synonym ReducedMantissa = nat
type_synonym Exponent = int

datatype failure = SignedOverflow | AssertionFailed

definition wrap128 :: "nat \<Rightarrow> ReducedMantissa" where
  "wrap128 x = x mod 2 ^ 128"

definition checked :: "int \<Rightarrow> failure + Exponent" where
  "checked x = (if - 2147483648 \<le> x \<and> x \<le> 2147483647 then Inr x else Inl SignedOverflow)"

text \<open>\<open>struct IEEE754Number<N, Base>\<close>: sign, mantissa, exponent. The base is a template
  parameter and does not appear in the value.\<close>

record IEEE754Number =
  negative :: bool
  mantissa :: Mantissa
  exponent :: Exponent

definition mantissaBits :: nat where "mantissaBits = 52"
definition exponentBits :: nat where "exponentBits = 11"

definition exponentBase :: Exponent where
  "exponentBase = 2 ^ (exponentBits - 1) - 1"

definition exponentMax :: Exponent where
  "exponentMax = 2 ^ exponentBits - exponentBase - 2"

definition exponentMin :: Exponent where
  "exponentMin = 1 - exponentBase"

definition exponentSubnormalBase :: Exponent where
  "exponentSubnormalBase = 1 - exponentBase"

definition exponentSubnormalMin :: Exponent where
  "exponentSubnormalMin = exponentSubnormalBase - int mantissaBits"

definition reducedMantissaBits :: Exponent where
  "reducedMantissaBits = 128"

section \<open>The rounding primitive\<close>

text \<open>\<open>divideBy(number, divisor)\<close> of IEEE754.h, on the accumulator type. The source
  updates \<open>number\<close> in place; the model returns the new value.\<close>

definition divideBy :: "ReducedMantissa \<Rightarrow> ReducedMantissa \<Rightarrow> ReducedMantissa" where
  "divideBy number divisor =
     (if number mod divisor \<noteq> divisor div 2 then number div divisor
      else (let q = number div divisor in if q AND 1 \<noteq> 0 then wrap128 (q + 1) else q))"

section \<open>Decimal lexer\<close>

text \<open>The parser is generic in the character type and compares characters with ASCII
  literals only; the model takes the 8-bit \<open>char\<close>. A digit is a character from \<open>'0'\<close> to
  \<open>'9'\<close>, codes 48 to 57.\<close>

definition isDigit :: "char \<Rightarrow> bool" where
  "isDigit c \<longleftrightarrow> (48::nat) \<le> of_char c \<and> of_char c \<le> (57::nat)"

definition digitOf :: "char \<Rightarrow> nat" where
  "digitOf c = of_char c - 48"

definition isSign :: "char \<Rightarrow> bool" where
  "isSign c \<longleftrightarrow> c = CHR ''+'' \<or> c = CHR ''-''"

definition mantissaMax :: Mantissa where
  "mantissaMax = - 1"

text \<open>The local variables of \<open>parseMantissa\<close> that live across loop rounds.\<close>

record MantissaScan =
  scanMantissa :: Mantissa
  scanExponent :: Exponent
  scanNegative :: bool
  stopExponent :: bool
  stopMantissa :: bool
  digits :: bool

definition parseError :: "nat \<times> IEEE754Number" where
  "parseError = (0, \<lparr>negative = False, mantissa = 0, exponent = 0\<rparr>)"

text \<open>The body of the digit case of \<open>parseMantissa\<close>, for the digit value \<open>digit\<close>.\<close>

definition mantissaDigit :: "MantissaScan \<Rightarrow> nat \<Rightarrow> failure + MantissaScan" where
  "mantissaDigit st digit =
     (let m = scanMantissa st;
          justStoppedMantissa =
            (\<not> stopMantissa st \<and> m \<ge> mantissaMax div 10 \<and>
             (m > mantissaMax div 10 \<or>
              (m = mantissaMax div 10 \<and> m > (mantissaMax - of_nat digit) div 10)));
          stopped = (stopMantissa st \<or> justStoppedMantissa)
      in
      case
        (if \<not> stopped then Inr (m * 10 + of_nat digit, scanExponent st)
         else
           (case checked (scanExponent st + 1) of
              Inl f \<Rightarrow> Inl f
            | Inr e1 \<Rightarrow>
                if justStoppedMantissa \<and> (digit > 5 \<or> (digit = 5 \<and> m AND 1 \<noteq> 0)) then
                  (if m + 1 = 0 then
                     (case checked (e1 + 1) of
                        Inl f \<Rightarrow> Inl f
                      | Inr e2 \<Rightarrow>
                          Inr (if mantissaMax mod 10 + 1 \<ge> 5
                               then mantissaMax div 10 + 1 else mantissaMax div 10, e2))
                   else Inr (m + 1, e1))
                else Inr (m, e1)))
      of
        Inl f \<Rightarrow> Inl f
      | Inr (m', e') \<Rightarrow>
          (case (if stopExponent st then checked (e' - 1) else Inr e') of
             Inl f \<Rightarrow> Inl f
           | Inr e'' \<Rightarrow>
               Inr (st\<lparr>scanMantissa := m', scanExponent := e'', stopMantissa := stopped,
                        digits := True\<rparr>)))"

text \<open>The loop of \<open>parseMantissa\<close>: \<open>i\<close> is the loop index, the list holds the
  characters from index \<open>i\<close> on. At the end of the input the source reads the character
  0, which takes the default branch.\<close>

fun parseMantissaLoop :: "nat \<Rightarrow> string \<Rightarrow> MantissaScan \<Rightarrow> failure + (nat \<times> IEEE754Number)" where
  "parseMantissaLoop i [] st =
     (if \<not> digits st then Inr parseError
      else Inr (i, \<lparr>negative = scanNegative st, mantissa = scanMantissa st,
                    exponent = scanExponent st\<rparr>))"
| "parseMantissaLoop i (c # cs) st =
     (if isDigit c then
        (case mantissaDigit st (digitOf c) of
           Inl f \<Rightarrow> Inl f
         | Inr st' \<Rightarrow> parseMantissaLoop (i + 1) cs st')
      else if isSign c then
        (if i \<noteq> 0 then Inr parseError
         else parseMantissaLoop (i + 1) cs (st\<lparr>scanNegative := (c = CHR ''-'')\<rparr>))
      else if c = CHR ''.'' then
        (if stopExponent st then Inr parseError
         else parseMantissaLoop (i + 1) cs (st\<lparr>stopExponent := True\<rparr>))
      else
        (if \<not> digits st then Inr parseError
         else Inr (i, \<lparr>negative = scanNegative st, mantissa = scanMantissa st,
                       exponent = scanExponent st\<rparr>)))"

definition parseMantissa :: "string \<Rightarrow> failure + (nat \<times> IEEE754Number)" where
  "parseMantissa s =
     parseMantissaLoop 0 s
       \<lparr>scanMantissa = 0, scanExponent = 0, scanNegative = False, stopExponent = False,
        stopMantissa = False, digits = False\<rparr>"

definition exponentTypeMax :: Exponent where
  "exponentTypeMax = 2147483647"

text \<open>The loop of \<open>parseExponent\<close>, with its locals \<open>exponent\<close> and \<open>negative\<close>. C++
  division truncates; the operands of the overflow test are nonnegative, where \<open>div\<close>
  agrees with it. The product in the overflow test is only evaluated when
  \<open>expo \<le> max / 10\<close>.\<close>

fun parseExponentLoop :: "nat \<Rightarrow> string \<Rightarrow> Exponent \<Rightarrow> bool \<Rightarrow> failure + (nat \<times> Exponent)" where
  "parseExponentLoop i [] expo neg =
     (if \<not> neg then Inr (i, expo)
      else (case checked (- expo) of Inl f \<Rightarrow> Inl f | Inr e \<Rightarrow> Inr (i, e)))"
| "parseExponentLoop i (c # cs) expo neg =
     (if isDigit c then
        (let digit = int (digitOf c) in
         if expo \<ge> exponentTypeMax div 10 - 1 \<and>
            (expo > exponentTypeMax div 10 \<or> expo * 10 > exponentTypeMax - digit)
         then Inr (0, 0)
         else
           (case checked (expo * 10) of
              Inl f \<Rightarrow> Inl f
            | Inr e10 \<Rightarrow>
                (case checked (e10 + digit) of
                   Inl f \<Rightarrow> Inl f
                 | Inr e \<Rightarrow> parseExponentLoop (i + 1) cs e neg)))
      else if isSign c then
        (if i \<noteq> 0 then Inr (0, 0)
         else parseExponentLoop (i + 1) cs expo (c = CHR ''-''))
      else
        (if \<not> neg then Inr (i, expo)
         else (case checked (- expo) of Inl f \<Rightarrow> Inl f | Inr e \<Rightarrow> Inr (i, e))))"

definition parseExponent :: "string \<Rightarrow> failure + (nat \<times> Exponent)" where
  "parseExponent s = parseExponentLoop 0 s 0 False"

definition parseMantissaExponent :: "string \<Rightarrow> failure + (nat \<times> IEEE754Number)" where
  "parseMantissaExponent s =
     (case parseMantissa s of
        Inl f \<Rightarrow> Inl f
      | Inr (parsed, number) \<Rightarrow>
          if parsed = 0 then Inr parseError
          else
            (let c = (if parsed < length s then s ! parsed else CHR 0x00) in
             if c = CHR ''e'' \<or> c = CHR ''E'' then
               (case parseExponent (drop (parsed + 1) s) of
                  Inl f \<Rightarrow> Inl f
                | Inr (parsedExponent, explicitExponent) \<Rightarrow>
                    if parsedExponent = 0 then Inr parseError
                    else
                      (case checked (exponent number + explicitExponent) of
                         Inl f \<Rightarrow> Inl f
                       | Inr e \<Rightarrow>
                           Inr (parsed + 1 + parsedExponent, number\<lparr>exponent := e\<rparr>)))
             else Inr (parsed, number)))"

section \<open>Base converter\<close>

text \<open>The four instantiations \<open><tenFactor, twoFactor>\<close> of \<open>decreaseTenExponent\<close> and
  \<open>increaseTenExponent\<close> that \<open>convertTwobase\<close> uses: \<open><9, 30>\<close>, \<open><6, 20>\<close>,
  \<open><3, 10>\<close> and \<open><1, 4>\<close>.\<close>

datatype factors = F9_30 | F6_20 | F3_10 | F1_4

fun tenFactor :: "factors \<Rightarrow> nat" where
  "tenFactor F9_30 = 9"
| "tenFactor F6_20 = 6"
| "tenFactor F3_10 = 3"
| "tenFactor F1_4 = 1"

fun twoFactor :: "factors \<Rightarrow> nat" where
  "twoFactor F9_30 = 30"
| "twoFactor F6_20 = 20"
| "twoFactor F3_10 = 10"
| "twoFactor F1_4 = 4"

definition tenMultiplier :: "factors \<Rightarrow> ReducedMantissa" where
  "tenMultiplier f = 10 ^ tenFactor f"

definition twoMultiplier :: "factors \<Rightarrow> ReducedMantissa" where
  "twoMultiplier f = 2 ^ twoFactor f"

definition reducedMax :: ReducedMantissa where
  "reducedMax = 2 ^ 128 - 1"

text \<open>\<open>decreaseTenExponent\<close>: the references \<open>varmantissa\<close>, \<open>tenexponent\<close> and
  \<open>twoexponent\<close> are passed in and returned.\<close>

function decreaseTenExponent ::
  "factors \<Rightarrow> ReducedMantissa \<Rightarrow> Exponent \<Rightarrow> Exponent \<Rightarrow>
   failure + (ReducedMantissa \<times> Exponent \<times> Exponent)" where
  "decreaseTenExponent f varmantissa tenexponent twoexponent =
     (if tenexponent \<ge> int (tenFactor f) then
        (if varmantissa > reducedMax div twoMultiplier f then
           (case checked (twoexponent + int (twoFactor f)) of
              Inl e \<Rightarrow> Inl e
            | Inr twoexponent' \<Rightarrow>
                if twoexponent' > exponentMax then Inr (1, 0, exponentMax + 1)
                else
                  (case checked (tenexponent - int (tenFactor f)) of
                     Inl e \<Rightarrow> Inl e
                   | Inr tenexponent' \<Rightarrow>
                       decreaseTenExponent f
                         (wrap128 (divideBy varmantissa (twoMultiplier f) * tenMultiplier f))
                         tenexponent' twoexponent'))
         else
           (case checked (tenexponent - int (tenFactor f)) of
              Inl e \<Rightarrow> Inl e
            | Inr tenexponent' \<Rightarrow>
                decreaseTenExponent f (wrap128 (varmantissa * tenMultiplier f)) tenexponent'
                  twoexponent))
      else Inr (varmantissa, tenexponent, twoexponent))"
  by pat_completeness auto
termination
  apply (relation "measure (\<lambda>(f, v, t, e). nat t)")
    apply (auto simp: checked_def split: if_splits)
  subgoal for f by (cases f) auto
  subgoal for f by (cases f) auto
  subgoal for f by (cases f) auto
  subgoal for f by (cases f) auto
  done

text \<open>The inner loop of \<open>increaseTenExponent\<close> ("room on the left"). \<open>None\<close> is the
  early \<open>return\<close> of the underflow bail-out.\<close>

function increaseTenExponentRoom ::
  "factors \<Rightarrow> ReducedMantissa \<Rightarrow> Exponent \<Rightarrow> failure + (ReducedMantissa \<times> Exponent) option" where
  "increaseTenExponentRoom f varmantissa twoexponent =
     (if varmantissa \<le> reducedMax div twoMultiplier f then
        (case checked (exponentSubnormalMin - reducedMantissaBits + twoexponent) of
           Inl e \<Rightarrow> Inl e
         | Inr limit \<Rightarrow>
             if twoexponent < limit then Inr None
             else
               (case checked (twoexponent - int (twoFactor f)) of
                  Inl e \<Rightarrow> Inl e
                | Inr twoexponent' \<Rightarrow>
                    increaseTenExponentRoom f (wrap128 (varmantissa * twoMultiplier f))
                      twoexponent'))
      else Inr (Some (varmantissa, twoexponent)))"
  by pat_completeness auto
termination
  apply (relation "measure (\<lambda>(f, v, e). nat (e + 2147483648))")
   apply (auto simp: checked_def split: if_splits)
  subgoal for f by (cases f) auto
  subgoal for f by (cases f) auto
  done

function increaseTenExponent ::
  "factors \<Rightarrow> ReducedMantissa \<Rightarrow> Exponent \<Rightarrow> Exponent \<Rightarrow>
   failure + (ReducedMantissa \<times> Exponent \<times> Exponent)" where
  "increaseTenExponent f varmantissa tenexponent twoexponent =
     (if tenexponent \<le> - int (tenFactor f) then
        (case increaseTenExponentRoom f varmantissa twoexponent of
           Inl e \<Rightarrow> Inl e
         | Inr None \<Rightarrow> Inr (0, 0, 0)
         | Inr (Some (varmantissa', twoexponent')) \<Rightarrow>
             (case checked (tenexponent + int (tenFactor f)) of
                Inl e \<Rightarrow> Inl e
              | Inr tenexponent' \<Rightarrow>
                  increaseTenExponent f (divideBy varmantissa' (tenMultiplier f))
                    tenexponent' twoexponent'))
      else Inr (varmantissa, tenexponent, twoexponent))"
  by pat_completeness auto
termination
  apply (relation "measure (\<lambda>(f, v, t, e). nat (- t))")
   apply simp
  subgoal for f v t e x y z t'
    by (cases f) (simp_all add: checked_def split: if_splits)
  done

definition mantissaBitsKept :: nat where
  "mantissaBitsKept = mantissaBits + 1"

text \<open>The three normalisation loops of \<open>convertTwobase\<close>.\<close>

function reduceMantissa ::
  "ReducedMantissa \<Rightarrow> Exponent \<Rightarrow> failure + (ReducedMantissa \<times> Exponent)" where
  "reduceMantissa varmantissa position =
     (if varmantissa \<ge> 2 ^ mantissaBitsKept then
        (case checked (position + 1) of
           Inl e \<Rightarrow> Inl e
         | Inr position' \<Rightarrow> reduceMantissa (divideBy varmantissa 2) position')
      else Inr (varmantissa, position))"
  by pat_completeness auto
termination
  by (relation "measure (\<lambda>(v, p). nat (2147483648 - p))")
     (simp_all add: checked_def split: if_splits)

function leadingBitLeft ::
  "ReducedMantissa \<Rightarrow> Exponent \<Rightarrow> Exponent \<Rightarrow> failure + (ReducedMantissa \<times> Exponent)" where
  "leadingBitLeft varmantissa position twoexponent =
     (if varmantissa < 2 ^ (mantissaBitsKept - 1) then
        (case checked (twoexponent + position) of
           Inl e \<Rightarrow> Inl e
         | Inr s \<Rightarrow>
             if s > exponentMin then
               (case checked (position - 1) of
                  Inl e \<Rightarrow> Inl e
                | Inr position' \<Rightarrow> leadingBitLeft (wrap128 (varmantissa * 2)) position' twoexponent)
             else Inr (varmantissa, position))
      else Inr (varmantissa, position))"
  by pat_completeness auto
termination
  by (relation "measure (\<lambda>(v, p, e). nat (p + 2147483649))")
     (simp_all add: checked_def split: if_splits)

function fixExponent ::
  "ReducedMantissa \<Rightarrow> Exponent \<Rightarrow> failure + (ReducedMantissa \<times> Exponent)" where
  "fixExponent varmantissa twoexponent =
     (if twoexponent < exponentMin then
        (case checked (twoexponent + 1) of
           Inl e \<Rightarrow> Inl e
         | Inr twoexponent' \<Rightarrow> fixExponent (divideBy varmantissa 2) twoexponent')
      else Inr (varmantissa, twoexponent))"
  by pat_completeness auto
termination
  by (relation "measure (\<lambda>(v, e). nat (exponentMin - e))")
     (simp_all add: checked_def split: if_splits)

text \<open>The four calls in sequence, each on the variables the previous one left.\<close>

definition decreaseAll ::
  "ReducedMantissa \<Rightarrow> Exponent \<Rightarrow> Exponent \<Rightarrow>
   failure + (ReducedMantissa \<times> Exponent \<times> Exponent)" where
  "decreaseAll varmantissa tenexponent twoexponent =
     (case decreaseTenExponent F9_30 varmantissa tenexponent twoexponent of
        Inl e \<Rightarrow> Inl e
      | Inr (v1, t1, e1) \<Rightarrow>
     (case decreaseTenExponent F6_20 v1 t1 e1 of
        Inl e \<Rightarrow> Inl e
      | Inr (v2, t2, e2) \<Rightarrow>
     (case decreaseTenExponent F3_10 v2 t2 e2 of
        Inl e \<Rightarrow> Inl e
      | Inr (v3, t3, e3) \<Rightarrow> decreaseTenExponent F1_4 v3 t3 e3)))"

definition increaseAll ::
  "ReducedMantissa \<Rightarrow> Exponent \<Rightarrow> Exponent \<Rightarrow>
   failure + (ReducedMantissa \<times> Exponent \<times> Exponent)" where
  "increaseAll varmantissa tenexponent twoexponent =
     (case increaseTenExponent F9_30 varmantissa tenexponent twoexponent of
        Inl e \<Rightarrow> Inl e
      | Inr (v1, t1, e1) \<Rightarrow>
     (case increaseTenExponent F6_20 v1 t1 e1 of
        Inl e \<Rightarrow> Inl e
      | Inr (v2, t2, e2) \<Rightarrow>
     (case increaseTenExponent F3_10 v2 t2 e2 of
        Inl e \<Rightarrow> Inl e
      | Inr (v3, t3, e3) \<Rightarrow> increaseTenExponent F1_4 v3 t3 e3)))"

text \<open>The part of \<open>convertTwobase\<close> after the zero test: normalise and build the base-2
  number. Constructing it narrows the accumulator to the 64-bit \<open>Mantissa\<close>.\<close>

definition normalizeTwobase ::
  "bool \<Rightarrow> ReducedMantissa \<Rightarrow> Exponent \<Rightarrow> failure + IEEE754Number" where
  "normalizeTwobase neg varmantissa twoexponent =
     (case reduceMantissa varmantissa (int mantissaBits + 1 - 1) of
        Inl e \<Rightarrow> Inl e
      | Inr (v1, position1) \<Rightarrow>
     (case leadingBitLeft v1 position1 twoexponent of
        Inl e \<Rightarrow> Inl e
      | Inr (v2, position2) \<Rightarrow>
     (case checked (twoexponent + position2) of
        Inl e \<Rightarrow> Inl e
      | Inr twoexponent' \<Rightarrow>
     (case fixExponent v2 twoexponent' of
        Inl e \<Rightarrow> Inl e
      | Inr (v3, twoexponent'') \<Rightarrow>
          Inr \<lparr>negative = neg, mantissa = of_nat v3, exponent = twoexponent''\<rparr>))))"

definition convertTwobase :: "IEEE754Number \<Rightarrow> failure + IEEE754Number" where
  "convertTwobase d =
     (case
        (if exponent d > 0 then decreaseAll (unat (mantissa d)) (exponent d) 0
         else if exponent d < 0 then increaseAll (unat (mantissa d)) (exponent d) 0
         else Inr (unat (mantissa d), exponent d, 0))
      of
        Inl e \<Rightarrow> Inl e
      | Inr (varmantissa, tenexponent, twoexponent) \<Rightarrow>
          if tenexponent \<noteq> 0 then Inl AssertionFailed
          else if varmantissa = 0 then
            Inr \<lparr>negative = negative d, mantissa = 0, exponent = 0\<rparr>
          else normalizeTwobase (negative d) varmantissa twoexponent)"

section \<open>IEEE754 packer\<close>

text \<open>\<open>IEEE754BinaryNumber::number\<close>: the exponent argument is an \<open>Exponent\<close>, cast to
  the unsigned \<open>Integer\<close> before the shift.\<close>

definition number :: "bool \<Rightarrow> Mantissa \<Rightarrow> Exponent \<Rightarrow> failure + Integer" where
  "number neg mant expo =
     (let negativePart = (if neg then push_bit (mantissaBits + exponentBits) 1 else 0);
          exponentPart = push_bit mantissaBits (word_of_int expo :: Integer);
          mantissaPart = mant
      in if mantissaPart < push_bit mantissaBits 1
         then Inr (negativePart OR exponentPart OR mantissaPart)
         else Inl AssertionFailed)"

definition zero :: "bool \<Rightarrow> failure + Integer" where
  "zero neg = number neg 0 0"

definition infinity :: "bool \<Rightarrow> failure + Integer" where
  "infinity neg = number neg 0 (2 ^ exponentBits - 1)"

definition nan :: "failure + Integer" where
  "nan = number False 1 (2 ^ exponentBits - 1)"

definition toIEEE754 :: "IEEE754Number \<Rightarrow> failure + Integer" where
  "toIEEE754 b =
     (if mantissa b = 0 \<or> exponent b < exponentSubnormalMin then zero (negative b)
      else if exponent b > exponentMax then infinity (negative b)
      else if mantissa b AND push_bit mantissaBits 1 \<noteq> 0 then
        (let normalizedMantissa = mantissa b AND NOT (push_bit mantissaBits 1) in
         if \<not> exponent b \<le> exponentMax then Inl AssertionFailed
         else if \<not> exponent b \<ge> exponentMin then Inl AssertionFailed
         else
           (case checked (exponent b + exponentBase) of
              Inl e \<Rightarrow> Inl e
            | Inr biased \<Rightarrow>
                if biased = 0 then Inl AssertionFailed
                else number (negative b) normalizedMantissa biased))
      else if exponent b \<noteq> exponentSubnormalBase then Inl AssertionFailed
      else number (negative b) (mantissa b) 0)"

section \<open>Full conversion\<close>

definition toLower :: "char \<Rightarrow> char" where
  "toLower c =
     (if (65::nat) \<le> of_char c \<and> of_char c \<le> (90::nat)
      then char_of (of_char c + (97::nat) - 65) else c)"

text \<open>\<open>operator==\<close> against an 8-bit literal: equal length, then character by character
  with both sides lowered.\<close>

fun equalsLoop :: "string \<Rightarrow> string \<Rightarrow> bool" where
  "equalsLoop [] [] = True"
| "equalsLoop (c # cs) (d # ds) = (if toLower c \<noteq> toLower d then False else equalsLoop cs ds)"
| "equalsLoop _ _ = False"

definition equalsLiteral :: "string \<Rightarrow> string \<Rightarrow> bool" where
  "equalsLiteral s str = (if length s \<noteq> length str then False else equalsLoop s str)"

text \<open>\<open>toAnyDouble\<close> (and \<open>toDouble(bool&)\<close>, which forwards to it). The result pairs the
  \<open>error\<close> out-parameter with the returned value; the floating value is represented by
  its bit pattern, \<open>toFloat\<close> being a reinterpretation of the bits. \<open>N{}\<close> is \<open>+0.0\<close>,
  pattern 0.\<close>

definition toAnyDouble :: "string \<Rightarrow> failure + (bool \<times> Integer)" where
  "toAnyDouble s =
     (case parseMantissaExponent s of
        Inl f \<Rightarrow> Inl f
      | Inr (parsed, num) \<Rightarrow>
          (let error = (parsed \<noteq> length s) in
           if \<not> error then
             (case convertTwobase num of
                Inl f \<Rightarrow> Inl f
              | Inr b \<Rightarrow> (case toIEEE754 b of Inl f \<Rightarrow> Inl f | Inr w \<Rightarrow> Inr (error, w)))
           else if equalsLiteral s ''Inf'' \<or> equalsLiteral s ''+Inf'' then
             (case infinity False of Inl f \<Rightarrow> Inl f | Inr w \<Rightarrow> Inr (False, w))
           else if equalsLiteral s ''-Inf'' then
             (case infinity True of Inl f \<Rightarrow> Inl f | Inr w \<Rightarrow> Inr (False, w))
           else if equalsLiteral s ''NaN'' then
             (case nan of Inl f \<Rightarrow> Inl f | Inr w \<Rightarrow> Inr (False, w))
           else Inr (error, 0)))"

definition toDouble :: "string \<Rightarrow> failure + (bool \<times> Integer)" where
  "toDouble s = toAnyDouble s"

text \<open>The helpers of the test suite (IEEE754Tests.h): parse, drop the consumed length,
  convert and pack.\<close>

definition toMantissaExponent :: "string \<Rightarrow> failure + IEEE754Number" where
  "toMantissaExponent s =
     (case parseMantissaExponent s of Inl f \<Rightarrow> Inl f | Inr (parsed, num) \<Rightarrow> Inr num)"

definition toIEEE754Double :: "string \<Rightarrow> failure + Integer" where
  "toIEEE754Double s =
     (case toMantissaExponent s of
        Inl f \<Rightarrow> Inl f
      | Inr d \<Rightarrow> (case convertTwobase d of Inl f \<Rightarrow> Inl f | Inr b \<Rightarrow> toIEEE754 b))"

text \<open>The recursive equations of the loops are unfolded on demand only.\<close>

declare decreaseTenExponent.simps [simp del]
declare increaseTenExponentRoom.simps [simp del]
declare increaseTenExponent.simps [simp del]
declare reduceMantissa.simps [simp del]
declare leadingBitLeft.simps [simp del]
declare fixExponent.simps [simp del]

section \<open>Round-half-to-even, as the glossary defines it\<close>

text \<open>The integer nearest to \<open>n / d\<close>, an exact half going to the even neighbour. This
  definition follows the words of the specification, not the source; \<open>divideBy\<close> above is
  the source.\<close>

definition roundHalfToEven :: "nat \<Rightarrow> nat \<Rightarrow> nat" where
  "roundHalfToEven n d =
     (let q = n div d; r = n mod d in
      if 2 * r < d then q
      else if 2 * r > d then q + 1
      else if even q then q else q + 1)"

section \<open>The number a digit string denotes\<close>

text \<open>The decimal value of a string of digits, most significant digit first. This
  definition follows the usual reading of a numeral, not the source.\<close>

definition decimalValue :: "string \<Rightarrow> nat" where
  "decimalValue ds = foldl (\<lambda>v c. 10 * v + digitOf c) 0 ds"

section \<open>Decimal magnitudes\<close>



section \<open>The invariant of a converted number\<close>

text \<open>What \<open>toIEEE754\<close> and \<open>number\<close> assert about a base-2 number: the mantissa fits
  \<open>mantissaBits + 1\<close> bits, the exponent is at least \<open>exponentMin\<close>, and a mantissa without
  the leading bit is zero or carries the subnormal exponent.\<close>

definition binaryInvariant :: "IEEE754Number \<Rightarrow> bool" where
  "binaryInvariant b \<longleftrightarrow>
     mantissa b < 2 ^ (mantissaBits + 1) \<and> exponent b \<ge> exponentMin \<and>
     (\<not> bit (mantissa b) mantissaBits \<longrightarrow> mantissa b = 0 \<or> exponent b = exponentSubnormalBase)"

section \<open>The packer's case analysis, in the words of the specification\<close>

text \<open>The four encodings of section 4.3 of the specification and the case analysis that
  selects one. These definitions follow the specification; \<open>toIEEE754\<close> above is the
  source.\<close>

definition signBit :: "bool \<Rightarrow> Integer" where
  "signBit neg = (if neg then 2 ^ (mantissaBits + exponentBits) else 0)"

definition signedZero :: "bool \<Rightarrow> Integer" where
  "signedZero neg = signBit neg"

definition signedInfinity :: "bool \<Rightarrow> Integer" where
  "signedInfinity neg = signBit neg OR push_bit mantissaBits (mask exponentBits)"

definition normalEncoding :: "IEEE754Number \<Rightarrow> Integer" where
  "normalEncoding b =
     signBit (negative b) OR push_bit mantissaBits (word_of_int (exponent b + exponentBase))
       OR unset_bit mantissaBits (mantissa b)"

definition subnormalEncoding :: "IEEE754Number \<Rightarrow> Integer" where
  "subnormalEncoding b = signBit (negative b) OR mantissa b"

definition toIEEE754_spec :: "IEEE754Number \<Rightarrow> Integer" where
  "toIEEE754_spec b =
     (if mantissa b = 0 \<or> exponent b < exponentSubnormalMin then signedZero (negative b)
      else if exponent b > exponentMax then signedInfinity (negative b)
      else if bit (mantissa b) mantissaBits then normalEncoding b
      else subnormalEncoding b)"

text \<open>The conditions under which no \<open>assert\<close> of \<open>toIEEE754\<close> or \<open>number\<close> fails.\<close>

definition assertionsHold :: "IEEE754Number \<Rightarrow> bool" where
  "assertionsHold b =
     (if mantissa b = 0 \<or> exponent b < exponentSubnormalMin \<or> exponent b > exponentMax then True
      else if bit (mantissa b) mantissaBits
      then exponentMin \<le> exponent b \<and> mantissa b < 2 ^ (mantissaBits + 1)
      else exponent b = exponentSubnormalBase \<and> mantissa b < 2 ^ mantissaBits)"

text \<open>The spellings that \<open>toAnyDouble\<close> recognises besides numbers.\<close>

definition isNonFiniteLiteral :: "string \<Rightarrow> bool" where
  "isNonFiniteLiteral s \<longleftrightarrow>
     equalsLiteral s ''Inf'' \<or> equalsLiteral s ''+Inf'' \<or> equalsLiteral s ''-Inf'' \<or>
     equalsLiteral s ''NaN''"

section \<open>The rounding primitive against round-half-to-even\<close>

text \<open>On an even divisor (every divisor the converter uses is one) and without wrap-around,
  \<open>divideBy\<close> agrees with round-half-to-even exactly when the remainder is at most one
  half.\<close>

lemma divideBy_agrees_iff:
  assumes "even d" and "0 < d" and "n < 2 ^ 128"
  shows "divideBy n d = roundHalfToEven n d \<longleftrightarrow> 2 * (n mod d) \<le> d"
proof -
  from assms(1,2) have d2: "2 * (d div 2) = d" and dge: "2 \<le> d" by auto
  have half: "n mod d = d div 2 \<longleftrightarrow> 2 * (n mod d) = d" using d2 by auto
  have odd: "n div d AND 1 \<noteq> 0 \<longleftrightarrow> odd (n div d)"
    by (simp add: and_one_eq mod_2_eq_odd)
  have "n div d \<le> n div 2" using dge by (simp add: div_le_mono2)
  then have "n div d + 1 \<le> n \<or> n div d = 0" by (cases n) auto
  with assms(3) have w: "wrap128 (Suc (n div d)) = Suc (n div d)"
    by (auto simp: wrap128_def)
  show ?thesis
    by (auto simp: divideBy_def roundHalfToEven_def Let_def half odd w)
qed

text \<open>The inner loop of \<open>increaseTenExponent<1, 4>\<close> on the accumulator 3, as in the
  conversion of \<open>0.3\<close>: it leaves \<open>3 * 2 ^ 124\<close>, which \<open>divideBy\<close> then divides by 10.\<close>

lemma room_three:
  "increaseTenExponentRoom F1_4 3 0 = Inr (Some (3 * 2 ^ 124, - 124))"
  by (simp add: increaseTenExponentRoom.simps wrap128_def checked_def reducedMax_def
      twoMultiplier_def exponentSubnormalMin_def exponentSubnormalBase_def exponentBase_def
      exponentBits_def mantissaBits_def reducedMantissaBits_def)

text \<open>Claim C1. The claim reads: for every nonnegative \<open>n\<close> and positive \<open>d\<close>,
  \<open>divideBy(n, d)\<close> is the integer nearest to \<open>n / d\<close>, exact halves going to the even
  neighbour. The source only treats the remainder \<open>d / 2\<close> specially and truncates in every
  other case, also when the remainder is above one half: \<open>divideBy(19, 10)\<close> is 1, while the
  nearest integer to 1.9 is 2. The same happens inside the converter: \<open>3 * 2 ^ 124\<close> has
  remainder 8 modulo 10 and is truncated.\<close>

theorem divideBy_not_nearest:
  "divideBy 19 10 = 1 \<and> roundHalfToEven 19 10 = 2 \<and>
   increaseTenExponentRoom F1_4 3 0 = Inr (Some (3 * 2 ^ 124, - 124)) \<and>
   divideBy (3 * 2 ^ 124) (tenMultiplier F1_4) = 6380294379767596189938273889345653964 \<and>
   roundHalfToEven (3 * 2 ^ 124) (tenMultiplier F1_4) = 6380294379767596189938273889345653965"
  by (simp add: divideBy_def roundHalfToEven_def tenMultiplier_def room_three)

section \<open>Lexer: concrete inputs\<close>

text \<open>The overflow test of \<open>parseExponent\<close> is exact: a digit that would take the
  accumulated exponent above the maximum of the type ends the parse with consumed length
  0; any other digit is accumulated.\<close>

lemma parseExponentLoop_digit_overflow:
  assumes "isDigit c" and "0 \<le> expo" and "expo \<le> exponentTypeMax"
    and "expo * 10 + int (digitOf c) > exponentTypeMax"
  shows "parseExponentLoop i (c # cs) expo neg = Inr (0, 0)"
  using assms by (auto simp: exponentTypeMax_def Let_def isDigit_def digitOf_def)

lemma parseExponentLoop_digit_fits:
  assumes "isDigit c" and "0 \<le> expo" and "expo * 10 + int (digitOf c) \<le> exponentTypeMax"
  shows "parseExponentLoop i (c # cs) expo neg =
     parseExponentLoop (i + 1) cs (expo * 10 + int (digitOf c)) neg"
  using assms by (auto simp: exponentTypeMax_def Let_def checked_def isDigit_def digitOf_def)

text \<open>Claim C3. The claim reads: \<open>parseExponent\<close> returns consumed length 0 whenever no
  digit follows the optional sign. On a sign alone the source returns consumed length 1 and
  exponent 0, so that \<open>1e+\<close> is accepted by \<open>parseMantissaExponent\<close> with all three
  characters consumed.\<close>

theorem parseExponent_sign_without_digits:
  "parseExponent ''+'' = Inr (1, 0) \<and> parseExponent ''-'' = Inr (1, 0) \<and>
   parseMantissaExponent ''1e+'' = Inr (3, \<lparr>negative = False, mantissa = 1, exponent = 0\<rparr>)"
  by code_simp

text \<open>Claim C10. On the empty input \<open>parseMantissaExponent\<close> returns consumed length 0,
  and \<open>toAnyDouble\<close> and \<open>toDouble\<close> report no error and return \<open>+0.0\<close> (pattern 0).\<close>

theorem empty_input_is_zero:
  "parseMantissaExponent [] = Inr (0, \<lparr>negative = False, mantissa = 0, exponent = 0\<rparr>) \<and>
   toAnyDouble [] = Inr (False, 0) \<and> toDouble [] = Inr (False, 0)"
  by code_simp

section \<open>Lexer: rounding at the mantissa overflow boundary\<close>

text \<open>The value of a digit string, computed from the left as the parser does.\<close>

lemma foldl_decimal:
  "foldl (\<lambda>v c. 10 * v + digitOf c) a ds = a * 10 ^ length ds + decimalValue ds"
proof (induction ds arbitrary: a)
  case Nil
  show ?case by (simp add: decimalValue_def)
next
  case (Cons c ds)
  have "foldl (\<lambda>v c. 10 * v + digitOf c) a (c # ds) =
      foldl (\<lambda>v c. 10 * v + digitOf c) (10 * a + digitOf c) ds" by simp
  also have "\<dots> = (10 * a + digitOf c) * 10 ^ length ds + decimalValue ds" by (rule Cons.IH)
  also have "decimalValue (c # ds) = digitOf c * 10 ^ length ds + decimalValue ds"
    using Cons.IH[of "digitOf c"] by (simp add: decimalValue_def)
  then have "(10 * a + digitOf c) * 10 ^ length ds + decimalValue ds =
      a * 10 ^ length (c # ds) + decimalValue (c # ds)"
    by (simp add: algebra_simps)
  finally show ?case .
qed

lemma decimalValue_Nil: "decimalValue [] = 0"
  by (simp add: decimalValue_def)

lemma decimalValue_Cons: "decimalValue (c # ds) = digitOf c * 10 ^ length ds + decimalValue ds"
  using foldl_decimal[of "digitOf c" ds] by (simp add: decimalValue_def)

lemma decimalValue_append:
  "decimalValue (xs @ ys) = decimalValue xs * 10 ^ length ys + decimalValue ys"
  using foldl_decimal[of "decimalValue xs" ys] by (simp add: decimalValue_def)

lemma isDigit_digitOf: "isDigit c \<Longrightarrow> digitOf c \<le> 9"
  unfolding isDigit_def digitOf_def by linarith

text \<open>The overflow test of \<open>parseMantissa\<close> is exact: it fires precisely when ten times
  the mantissa plus the new digit no longer fits 64 bits.\<close>

lemma mantissaMax_div: "mantissaMax div 10 = (1844674407370955161 :: Mantissa)"
  by (simp add: mantissaMax_def)

lemma overflow_test:
  fixes m :: Mantissa
  assumes "digit \<le> 9"
  shows "(m \<ge> mantissaMax div 10 \<and>
          (m > mantissaMax div 10 \<or>
           (m = mantissaMax div 10 \<and> m > (mantissaMax - of_nat digit) div 10))) \<longleftrightarrow>
         2 ^ 64 \<le> 10 * unat m + digit"
proof -
  have u: "unat (1844674407370955161 :: Mantissa) = 1844674407370955161" by simp
  have le: "(1844674407370955161 :: Mantissa) \<le> m \<longleftrightarrow> 1844674407370955161 \<le> unat m"
    by (simp add: word_le_nat_alt)
  have lt: "(1844674407370955161 :: Mantissa) < m \<longleftrightarrow> 1844674407370955161 < unat m"
    by (simp add: word_less_nat_alt)
  have eq: "m = (1844674407370955161 :: Mantissa) \<longleftrightarrow> unat m = 1844674407370955161"
    using word_unat_eq_iff[of m "1844674407370955161 :: Mantissa"] by simp
  have d: "((1844674407370955161 :: Mantissa) > (mantissaMax - of_nat digit) div 10) \<longleftrightarrow> 6 \<le> digit"
  proof -
    from assms have "digit \<in> {0, 1, 2, 3, 4, 5, 6, 7, 8, 9}" by auto
    then show ?thesis by (auto simp: mantissaMax_def)
  qed
  show ?thesis
    unfolding mantissaMax_div using assms le lt eq d by auto
qed


text \<open>The rounding rule of \<open>parseMantissa\<close> (increment when the digit is above 5, or is
  5 and the mantissa is odd) is round-half-to-even of the mantissa followed by that digit
  as one decimal place.\<close>

lemma rounds_up_iff:
  assumes "digit \<le> 9"
  shows "roundHalfToEven (10 * n + digit) 10 =
     (if digit > 5 \<or> (digit = 5 \<and> odd n) then n + 1 else n)"
proof -
  from assms have q: "(10 * n + digit) div 10 = n" and r: "(10 * n + digit) mod 10 = digit"
    by simp_all
  show ?thesis unfolding roundHalfToEven_def Let_def q r using assms by auto
qed

lemma word_odd_unat: "odd (m :: Mantissa) \<longleftrightarrow> odd (unat m)"
  by (simp add: bit_unsigned_iff flip: bit_0)

lemma word_odd_and: "(m :: Mantissa) AND 1 \<noteq> 0 \<longleftrightarrow> odd (unat m)"
  by (simp add: and_one_eq mod_2_eq_odd word_odd_unat)

text \<open>The three cases of the digit branch, for every state of the scan: a digit that
  fits is accumulated; a digit after the mantissa has stopped only moves the exponent; the
  first digit that does not fit rounds the mantissa. When the increment wraps (mantissa
  \<open>2 ^ 64 - 1\<close>), the source falls back to \<open>max / 10 + 1\<close> with one more exponent
  step, which is round-half-to-even by two decimal places.\<close>

lemma mantissaDigit_fits:
  assumes "digit \<le> 9" and "\<not> stopMantissa st"
    and "10 * unat (scanMantissa st) + digit < 2 ^ 64"
    and "- 2147483647 \<le> scanExponent st" and "scanExponent st \<le> 2147483647"
  shows "mantissaDigit st digit =
     Inr (st\<lparr>scanMantissa := of_nat (10 * unat (scanMantissa st) + digit),
             scanExponent := (if stopExponent st then scanExponent st - 1 else scanExponent st),
             stopMantissa := False, digits := True\<rparr>)"
proof -
  from overflow_test[OF assms(1), of "scanMantissa st"] assms(3)
  have no: "\<not> (scanMantissa st \<ge> mantissaMax div 10 \<and>
          (scanMantissa st > mantissaMax div 10 \<or>
           (scanMantissa st = mantissaMax div 10 \<and>
            scanMantissa st > (mantissaMax - of_nat digit) div 10)))"
    by simp
  have w: "scanMantissa st * 10 + of_nat digit = of_nat (10 * unat (scanMantissa st) + digit)"
    by (simp add: mult.commute)
  from assms(4,5) have c: "checked (scanExponent st - 1) = Inr (scanExponent st - 1)"
    by (simp add: checked_def)
  show ?thesis
    unfolding mantissaDigit_def Let_def using no assms(2) w c by simp
qed


lemma mantissaDigit_stopped:
  assumes "stopMantissa st"
    and "- 2147483648 \<le> scanExponent st" and "scanExponent st < 2147483647"
  shows "mantissaDigit st digit =
     Inr (st\<lparr>scanExponent := (if stopExponent st then scanExponent st else scanExponent st + 1),
             digits := True\<rparr>)"
proof -
  from assms(2,3) have c: "checked (scanExponent st + 1) = Inr (scanExponent st + 1)"
    by (simp add: checked_def)
  from assms(2,3) have c': "checked (scanExponent st + 1 - 1) = Inr (scanExponent st)"
    by (simp add: checked_def)
  show ?thesis
    unfolding mantissaDigit_def Let_def using assms(1) c c' by simp
qed

lemma mantissaDigit_rounds:
  assumes "digit \<le> 9" and "\<not> stopMantissa st"
    and "2 ^ 64 \<le> 10 * unat (scanMantissa st) + digit"
    and "- 2147483648 \<le> scanExponent st" and "scanExponent st < 2147483646"
  shows "mantissaDigit st digit =
     Inr (if roundHalfToEven (10 * unat (scanMantissa st) + digit) 10 < 2 ^ 64
          then st\<lparr>scanMantissa :=
                      of_nat (roundHalfToEven (10 * unat (scanMantissa st) + digit) 10),
                    scanExponent :=
                      (if stopExponent st then scanExponent st else scanExponent st + 1),
                    stopMantissa := True, digits := True\<rparr>
          else st\<lparr>scanMantissa :=
                      of_nat (roundHalfToEven (10 * unat (scanMantissa st) + digit) 100),
                    scanExponent :=
                      (if stopExponent st then scanExponent st + 1 else scanExponent st + 2),
                    stopMantissa := True, digits := True\<rparr>)"
proof -
  let ?m = "scanMantissa st"
  from overflow_test[OF assms(1), of ?m] assms(2,3)
  have J: "(\<not> stopMantissa st \<and> ?m \<ge> mantissaMax div 10 \<and>
          (?m > mantissaMax div 10 \<or>
           (?m = mantissaMax div 10 \<and> ?m > (mantissaMax - of_nat digit) div 10))) = True"
    by simp
  from assms(4,5) have c: "checked (scanExponent st + 1) = Inr (scanExponent st + 1)"
    "checked (scanExponent st + 1 + 1) = Inr (scanExponent st + 2)"
    "checked (scanExponent st + 1 - 1) = Inr (scanExponent st)"
    "checked (scanExponent st + 2 - 1) = Inr (scanExponent st + 1)"
    by (simp_all add: checked_def)
  have lt: "unat ?m < 2 ^ 64" using unsigned_less[of ?m] by simp
  have m1: "unat (- 1 :: Mantissa) = 18446744073709551615"
    by (simp add: unsigned_minus_1_eq_mask mask_eq_exp_minus_1)
  have wrap: "?m + 1 = 0 \<longleftrightarrow> unat ?m = 2 ^ 64 - 1"
  proof
    assume "?m + 1 = 0"
    then have "?m = - 1" by (simp only: eq_neg_iff_add_eq_0)
    then show "unat ?m = 2 ^ 64 - 1" using m1 by simp
  next
    assume "unat ?m = 2 ^ 64 - 1"
    then show "?m + 1 = 0" using word_unat_eq_iff[of ?m "- 1"] m1 by simp
  qed
  note rounds = rounds_up_iff[OF assms(1), of "unat ?m", folded word_odd_and]
  show ?thesis
  proof (cases "digit > 5 \<or> (digit = 5 \<and> ?m AND 1 \<noteq> 0)")
    case False
    then have U: "(digit > 5 \<or> (digit = 5 \<and> ?m AND 1 \<noteq> 0)) = False" by simp
    from rounds False have r: "roundHalfToEven (10 * unat ?m + digit) 10 = unat ?m" by simp
    show ?thesis
      unfolding mantissaDigit_def Let_def J U r using c lt by simp
  next
    case True
    then have U: "(digit > 5 \<or> (digit = 5 \<and> ?m AND 1 \<noteq> 0)) = True" by simp
    from rounds True have r: "roundHalfToEven (10 * unat ?m + digit) 10 = unat ?m + 1" by simp
    show ?thesis
    proof (cases "?m + 1 = 0")
      case nowrap: False
      with wrap lt have fit: "unat ?m + 1 < 2 ^ 64" by simp
      have w: "of_nat (unat ?m + 1) = ?m + 1" by simp
      from nowrap have W: "(?m + 1 = 0) = False" by simp
      show ?thesis
        unfolding mantissaDigit_def Let_def J U W r w using c fit by simp
    next
      case w: True
      with wrap have m: "unat ?m = 2 ^ 64 - 1" by simp
      from True assms(1) have d5: "5 \<le> digit" "digit \<le> 9" by auto
      have q: "(10 * (2 ^ 64 - 1) + digit) div 100 = (1844674407370955161 :: nat)"
        using d5 by simp
      from d5 have "digit \<in> {5, 6, 7, 8, 9}" by auto
      then have "(10 * (2 ^ 64 - 1) + digit) mod 100 = 50 + digit" by auto
      then have r100: "roundHalfToEven (10 * unat ?m + digit) 100 = 1844674407370955162"
        unfolding roundHalfToEven_def Let_def m q using d5 by simp
      have big: "\<not> unat ?m + 1 < 2 ^ 64" using m by simp
      have mm: "(if mantissaMax mod 10 + 1 \<ge> 5 then mantissaMax div 10 + 1 else mantissaMax div 10)
          = (1844674407370955162 :: Mantissa)"
        by (simp add: mantissaMax_def)
      from w have W: "(?m + 1 = 0) = True" by simp
      show ?thesis
        unfolding mantissaDigit_def Let_def J U W r r100 mm using c big by simp
    qed
  qed
qed


text \<open>The loop over a run of digits, before and after the mantissa has stopped, from
  every state.\<close>

lemma parseMantissaLoop_fits:
  assumes "\<forall>c\<in>set ds. isDigit c" and "\<not> stopMantissa st"
    and "unat (scanMantissa st) * 10 ^ length ds + decimalValue ds < 2 ^ 64"
    and "- 2147483647 \<le> scanExponent st - int (length ds)" and "scanExponent st \<le> 2147483647"
  shows "parseMantissaLoop i (ds @ cs) st =
     parseMantissaLoop (i + length ds) cs
       (st\<lparr>scanMantissa := of_nat (unat (scanMantissa st) * 10 ^ length ds + decimalValue ds),
           scanExponent :=
             (if stopExponent st then scanExponent st - int (length ds) else scanExponent st),
           digits := (digits st \<or> ds \<noteq> [])\<rparr>)"
  using assms
proof (induction ds arbitrary: i st)
  case Nil
  show ?case by (simp add: decimalValue_Nil)
next
  case (Cons c ds)
  let ?m = "scanMantissa st"
  let ?v = "10 * unat ?m + digitOf c"
  from Cons.prems(1) have dc: "isDigit c" and dds: "\<forall>c\<in>set ds. isDigit c" by simp_all
  from dc have d9: "digitOf c \<le> 9" by (rule isDigit_digitOf)
  have val: "unat ?m * 10 ^ length (c # ds) + decimalValue (c # ds) =
      ?v * 10 ^ length ds + decimalValue ds"
    by (simp add: decimalValue_Cons algebra_simps)
  have a: "?v \<le> ?v * 10 ^ length ds" by simp
  from Cons.prems(3) have b: "?v * 10 ^ length ds + decimalValue ds < 2 ^ 64"
    unfolding val .
  from a b have fit: "?v < 2 ^ 64" by linarith
  from Cons.prems(4,5) have e: "- 2147483647 \<le> scanExponent st" "scanExponent st \<le> 2147483647"
    by simp_all
  let ?st1 = "st\<lparr>scanMantissa := of_nat ?v,
             scanExponent := (if stopExponent st then scanExponent st - 1 else scanExponent st),
             stopMantissa := False, digits := True\<rparr>"
  from mantissaDigit_fits[OF d9 Cons.prems(2) fit e]
  have step: "mantissaDigit st (digitOf c) = Inr ?st1" .
  have u: "unat (of_nat ?v :: Mantissa) = ?v"
    using fit by (subst unat_of_nat) simp
  have "parseMantissaLoop i ((c # ds) @ cs) st = parseMantissaLoop (i + 1) (ds @ cs) ?st1"
    using dc step by simp
  also have "\<dots> = parseMantissaLoop (i + 1 + length ds) cs
       (?st1\<lparr>scanMantissa := of_nat (unat (scanMantissa ?st1) * 10 ^ length ds + decimalValue ds),
           scanExponent :=
             (if stopExponent ?st1 then scanExponent ?st1 - int (length ds)
              else scanExponent ?st1),
           digits := (digits ?st1 \<or> ds \<noteq> [])\<rparr>)"
  proof (rule Cons.IH[OF dds])
    show "\<not> stopMantissa ?st1" by simp
    show "unat (scanMantissa ?st1) * 10 ^ length ds + decimalValue ds < 2 ^ 64"
      using b u by simp
    show "- 2147483647 \<le> scanExponent ?st1 - int (length ds)" using Cons.prems(4) by simp
    show "scanExponent ?st1 \<le> 2147483647" using Cons.prems(5) by simp
  qed
  also have "(?st1\<lparr>scanMantissa := of_nat (unat (scanMantissa ?st1) * 10 ^ length ds + decimalValue ds),
           scanExponent :=
             (if stopExponent ?st1 then scanExponent ?st1 - int (length ds)
              else scanExponent ?st1),
           digits := (digits ?st1 \<or> ds \<noteq> [])\<rparr>) =
       (st\<lparr>scanMantissa :=
              of_nat (unat ?m * 10 ^ length (c # ds) + decimalValue (c # ds)),
           scanExponent :=
             (if stopExponent st then scanExponent st - int (length (c # ds))
              else scanExponent st),
           digits := (digits st \<or> c # ds \<noteq> [])\<rparr>)"
    using Cons.prems(2) unfolding val by (simp add: u)
  finally show ?case by simp
qed

lemma parseMantissaLoop_stopped:
  assumes "\<forall>c\<in>set ds. isDigit c" and "stopMantissa st"
    and "- 2147483648 \<le> scanExponent st" and "scanExponent st + int (length ds) \<le> 2147483647"
  shows "parseMantissaLoop i (ds @ cs) st =
     parseMantissaLoop (i + length ds) cs
       (st\<lparr>scanExponent :=
             (if stopExponent st then scanExponent st else scanExponent st + int (length ds)),
           digits := (digits st \<or> ds \<noteq> [])\<rparr>)"
  using assms
proof (induction ds arbitrary: i st)
  case Nil
  show ?case by simp
next
  case (Cons c ds)
  from Cons.prems(1) have dc: "isDigit c" and dds: "\<forall>c\<in>set ds. isDigit c" by simp_all
  let ?st1 = "st\<lparr>scanExponent :=
      (if stopExponent st then scanExponent st else scanExponent st + 1), digits := True\<rparr>"
  from Cons.prems(4) have "scanExponent st < 2147483647" by simp
  from mantissaDigit_stopped[OF Cons.prems(2,3) this]
  have step: "mantissaDigit st (digitOf c) = Inr ?st1" .
  have "parseMantissaLoop i ((c # ds) @ cs) st = parseMantissaLoop (i + 1) (ds @ cs) ?st1"
    using dc step by simp
  also have "\<dots> = parseMantissaLoop (i + 1 + length ds) cs
       (?st1\<lparr>scanExponent :=
             (if stopExponent ?st1 then scanExponent ?st1
              else scanExponent ?st1 + int (length ds)),
           digits := (digits ?st1 \<or> ds \<noteq> [])\<rparr>)"
  proof (rule Cons.IH[OF dds])
    show "stopMantissa ?st1" using Cons.prems(2) by simp
    show "- 2147483648 \<le> scanExponent ?st1" using Cons.prems(3) by simp
    show "scanExponent ?st1 + int (length ds) \<le> 2147483647" using Cons.prems(3,4) by simp
  qed
  also have "(?st1\<lparr>scanExponent :=
             (if stopExponent ?st1 then scanExponent ?st1
              else scanExponent ?st1 + int (length ds)),
           digits := (digits ?st1 \<or> ds \<noteq> [])\<rparr>) =
       (st\<lparr>scanExponent :=
             (if stopExponent st then scanExponent st
              else scanExponent st + int (length (c # ds))),
           digits := (digits st \<or> c # ds \<noteq> [])\<rparr>)"
    by simp
  finally show ?case by simp
qed

lemma parseMantissaLoop_point:
  "\<not> stopExponent st \<Longrightarrow>
   parseMantissaLoop i (CHR ''.'' # cs) st = parseMantissaLoop (i + 1) cs (st\<lparr>stopExponent := True\<rparr>)"
  by (simp add: isDigit_def isSign_def)

lemma parseMantissaLoop_sign:
  "isSign c \<Longrightarrow>
   parseMantissaLoop 0 (c # cs) st = parseMantissaLoop 1 cs (st\<lparr>scanNegative := (c = CHR ''-'')\<rparr>)"
  by (auto simp: isDigit_def isSign_def)


text \<open>The same runs with a decimal point after the first \<open>j\<close> digits (\<open>pt\<close> is the
  point or nothing).\<close>

lemma take_drop_nonempty: "(take j ds \<noteq> [] \<or> drop j ds \<noteq> []) \<longleftrightarrow> ds \<noteq> []"
  using append_take_drop_id[of j ds] by (metis append_is_Nil_conv)

lemma parseMantissaLoop_fits_point:
  assumes ds: "\<forall>c\<in>set ds. isDigit c" and j: "j \<le> length ds"
    and pt: "pt = [] \<and> j = length ds \<or> pt = ''.''"
    and st: "\<not> stopMantissa st" "\<not> stopExponent st"
    and fit: "unat (scanMantissa st) * 10 ^ length ds + decimalValue ds < 2 ^ 64"
    and e: "- 2147483647 \<le> scanExponent st - int (length ds)" "scanExponent st \<le> 2147483647"
  shows "parseMantissaLoop i (take j ds @ pt @ drop j ds @ cs) st =
     parseMantissaLoop (i + length ds + length pt) cs
       (st\<lparr>scanMantissa := of_nat (unat (scanMantissa st) * 10 ^ length ds + decimalValue ds),
           scanExponent := scanExponent st + int j - int (length ds),
           stopExponent := (pt \<noteq> []),
           digits := (digits st \<or> ds \<noteq> [])\<rparr>)"
proof (cases "pt = []")
  case True
  with pt have jl: "j = length ds" by auto
  have "parseMantissaLoop i (take j ds @ pt @ drop j ds @ cs) st =
      parseMantissaLoop i (ds @ cs) st"
    using True jl by simp
  also have "\<dots> = parseMantissaLoop (i + length ds) cs
        (st\<lparr>scanMantissa := of_nat (unat (scanMantissa st) * 10 ^ length ds + decimalValue ds),
           scanExponent :=
             (if stopExponent st then scanExponent st - int (length ds) else scanExponent st),
           digits := (digits st \<or> ds \<noteq> [])\<rparr>)"
    by (rule parseMantissaLoop_fits[OF ds st(1) fit e])
  also have "st\<lparr>scanMantissa := of_nat (unat (scanMantissa st) * 10 ^ length ds + decimalValue ds),
           scanExponent :=
             (if stopExponent st then scanExponent st - int (length ds) else scanExponent st),
           digits := (digits st \<or> ds \<noteq> [])\<rparr> =
        st\<lparr>scanMantissa := of_nat (unat (scanMantissa st) * 10 ^ length ds + decimalValue ds),
           scanExponent := scanExponent st + int j - int (length ds),
           stopExponent := (pt \<noteq> []),
           digits := (digits st \<or> ds \<noteq> [])\<rparr>"
    by (rule MantissaScan.equality) (simp_all add: st(2) True jl)
  also have "i + length ds = i + length ds + length pt" using True by simp
  finally show ?thesis .
next
  case False
  with pt have p: "pt = ''.''" by simp
  let ?a = "take j ds" and ?b = "drop j ds"
  let ?m = "scanMantissa st"
  have la: "length ?a = j" using j by simp
  have lb: "length ?b = length ds - j" by simp
  have da: "\<forall>c\<in>set ?a. isDigit c" using ds by (meson in_set_takeD)
  have db: "\<forall>c\<in>set ?b. isDigit c" using ds by (meson in_set_dropD)
  have "decimalValue (?a @ ?b) = decimalValue ?a * 10 ^ length ?b + decimalValue ?b"
    by (rule decimalValue_append)
  then have dv: "decimalValue ds = decimalValue ?a * 10 ^ (length ds - j) + decimalValue ?b"
    by simp
  have pw: "(10::nat) ^ length ds = 10 ^ j * 10 ^ (length ds - j)"
    using j by (simp flip: power_add)
  have total: "unat ?m * 10 ^ length ds + decimalValue ds =
      (unat ?m * 10 ^ j + decimalValue ?a) * 10 ^ (length ds - j) + decimalValue ?b"
    unfolding pw by (subst dv) (simp add: algebra_simps)
  have "unat ?m * 10 ^ j + decimalValue ?a \<le>
      (unat ?m * 10 ^ j + decimalValue ?a) * 10 ^ (length ds - j)" by simp
  with fit total have fa: "unat ?m * 10 ^ length ?a + decimalValue ?a < 2 ^ 64"
    unfolding la by linarith
  from e j have ea: "- 2147483647 \<le> scanExponent st - int (length ?a)" by simp
  let ?st1 = "st\<lparr>scanMantissa := of_nat (unat ?m * 10 ^ length ?a + decimalValue ?a),
      scanExponent :=
        (if stopExponent st then scanExponent st - int (length ?a) else scanExponent st),
      digits := (digits st \<or> ?a \<noteq> [])\<rparr>"
  let ?st2 = "?st1\<lparr>stopExponent := True\<rparr>"
  let ?st3 = "?st2\<lparr>scanMantissa :=
        of_nat (unat (scanMantissa ?st2) * 10 ^ length ?b + decimalValue ?b),
      scanExponent :=
        (if stopExponent ?st2 then scanExponent ?st2 - int (length ?b) else scanExponent ?st2),
      digits := (digits ?st2 \<or> ?b \<noteq> [])\<rparr>"
  have ua: "unat (of_nat (unat ?m * 10 ^ length ?a + decimalValue ?a) :: Mantissa) =
      unat ?m * 10 ^ j + decimalValue ?a"
    using fa unfolding la by (subst unat_of_nat) simp
  have 1: "\<not> stopMantissa ?st2" using st(1) by simp
  have 2: "unat (scanMantissa ?st2) * 10 ^ length ?b + decimalValue ?b < 2 ^ 64"
    using fit total ua lb by simp
  have 3: "- 2147483647 \<le> scanExponent ?st2 - int (length ?b)" using e j st(2) by simp
  have 4: "scanExponent ?st2 \<le> 2147483647" using e st(2) by simp
  have "parseMantissaLoop i (?a @ pt @ ?b @ cs) st =
      parseMantissaLoop (i + length ?a) (pt @ ?b @ cs) ?st1"
    by (rule parseMantissaLoop_fits[OF da st(1) fa ea e(2)])
  also have "\<dots> = parseMantissaLoop (i + length ?a + 1) (?b @ cs) ?st2"
    unfolding p using parseMantissaLoop_point[of ?st1 "i + length ?a" "?b @ cs"] st(2) by simp
  also have "\<dots> = parseMantissaLoop (i + length ?a + 1 + length ?b) cs ?st3"
    by (rule parseMantissaLoop_fits[OF db 1 2 3 4])
  also have "?st3 =
       (st\<lparr>scanMantissa := of_nat (unat ?m * 10 ^ length ds + decimalValue ds),
           scanExponent := scanExponent st + int j - int (length ds),
           stopExponent := (pt \<noteq> []),
           digits := (digits st \<or> ds \<noteq> [])\<rparr>)"
  proof (rule MantissaScan.equality)
    show "scanMantissa ?st3 = scanMantissa (st\<lparr>scanMantissa :=
             of_nat (unat ?m * 10 ^ length ds + decimalValue ds),
           scanExponent := scanExponent st + int j - int (length ds),
           stopExponent := (pt \<noteq> []),
           digits := (digits st \<or> ds \<noteq> [])\<rparr>)"
      unfolding total using ua lb by simp
    show "digits ?st3 = digits (st\<lparr>scanMantissa :=
             of_nat (unat ?m * 10 ^ length ds + decimalValue ds),
           scanExponent := scanExponent st + int j - int (length ds),
           stopExponent := (pt \<noteq> []),
           digits := (digits st \<or> ds \<noteq> [])\<rparr>)"
      using take_drop_nonempty[of j ds] by auto
  qed (use j p st(2) in \<open>simp_all add: of_nat_diff\<close>)
  also have "i + length ?a + 1 + length ?b = i + length ds + length pt" using j p by simp
  finally show ?thesis .
qed

lemma parseMantissaLoop_stopped_point:
  assumes ds: "\<forall>c\<in>set ds. isDigit c" and j: "j \<le> length ds"
    and pt: "pt = [] \<and> j = length ds \<or> pt = ''.''"
    and st: "stopMantissa st" "\<not> stopExponent st"
    and e: "- 2147483648 \<le> scanExponent st" "scanExponent st + int (length ds) \<le> 2147483647"
  shows "parseMantissaLoop i (take j ds @ pt @ drop j ds @ cs) st =
     parseMantissaLoop (i + length ds + length pt) cs
       (st\<lparr>scanExponent := scanExponent st + int j,
           stopExponent := (pt \<noteq> []),
           digits := (digits st \<or> ds \<noteq> [])\<rparr>)"
proof (cases "pt = []")
  case True
  with pt have jl: "j = length ds" by auto
  have "parseMantissaLoop i (take j ds @ pt @ drop j ds @ cs) st =
      parseMantissaLoop i (ds @ cs) st"
    using True jl by simp
  also have "\<dots> = parseMantissaLoop (i + length ds) cs
        (st\<lparr>scanExponent :=
             (if stopExponent st then scanExponent st else scanExponent st + int (length ds)),
           digits := (digits st \<or> ds \<noteq> [])\<rparr>)"
    by (rule parseMantissaLoop_stopped[OF ds st(1) e])
  also have "st\<lparr>scanExponent :=
             (if stopExponent st then scanExponent st else scanExponent st + int (length ds)),
           digits := (digits st \<or> ds \<noteq> [])\<rparr> =
        st\<lparr>scanExponent := scanExponent st + int j,
           stopExponent := (pt \<noteq> []),
           digits := (digits st \<or> ds \<noteq> [])\<rparr>"
    by (rule MantissaScan.equality) (simp_all add: st(2) True jl)
  also have "i + length ds = i + length ds + length pt" using True by simp
  finally show ?thesis .
next
  case False
  with pt have p: "pt = ''.''" by simp
  let ?a = "take j ds" and ?b = "drop j ds"
  have la: "length ?a = j" using j by simp
  have da: "\<forall>c\<in>set ?a. isDigit c" using ds by (meson in_set_takeD)
  have db: "\<forall>c\<in>set ?b. isDigit c" using ds by (meson in_set_dropD)
  from e j have ea: "scanExponent st + int (length ?a) \<le> 2147483647" by simp
  let ?st1 = "st\<lparr>scanExponent :=
        (if stopExponent st then scanExponent st else scanExponent st + int (length ?a)),
      digits := (digits st \<or> ?a \<noteq> [])\<rparr>"
  let ?st2 = "?st1\<lparr>stopExponent := True\<rparr>"
  let ?st3 = "?st2\<lparr>scanExponent :=
        (if stopExponent ?st2 then scanExponent ?st2 else scanExponent ?st2 + int (length ?b)),
      digits := (digits ?st2 \<or> ?b \<noteq> [])\<rparr>"
  have 1: "stopMantissa ?st2" using st(1) by simp
  have 2: "- 2147483648 \<le> scanExponent ?st2" using e st(2) by simp
  have 3: "scanExponent ?st2 + int (length ?b) \<le> 2147483647" using e j st(2) by simp
  have "parseMantissaLoop i (?a @ pt @ ?b @ cs) st =
      parseMantissaLoop (i + length ?a) (pt @ ?b @ cs) ?st1"
    by (rule parseMantissaLoop_stopped[OF da st(1) e(1) ea])
  also have "\<dots> = parseMantissaLoop (i + length ?a + 1) (?b @ cs) ?st2"
    unfolding p using parseMantissaLoop_point[of ?st1 "i + length ?a" "?b @ cs"] st(2) by simp
  also have "\<dots> = parseMantissaLoop (i + length ?a + 1 + length ?b) cs ?st3"
    by (rule parseMantissaLoop_stopped[OF db 1 2 3])
  also have "?st3 =
       (st\<lparr>scanExponent := scanExponent st + int j,
           stopExponent := (pt \<noteq> []),
           digits := (digits st \<or> ds \<noteq> [])\<rparr>)"
  proof (rule MantissaScan.equality)
    show "digits ?st3 = digits (st\<lparr>scanExponent := scanExponent st + int j,
           stopExponent := (pt \<noteq> []),
           digits := (digits st \<or> ds \<noteq> [])\<rparr>)"
      using take_drop_nonempty[of j ds] by auto
  qed (use j p st(2) in simp_all)
  also have "i + length ?a + 1 + length ?b = i + length ds + length pt" using j p by simp
  finally show ?thesis .
qed


text \<open>A whole mantissa: optional sign, digits with an optional decimal point, end of
  input.\<close>

lemma parseMantissa_sign:
  assumes "sg = [] \<or> sg = ''+'' \<or> sg = ''-''"
  shows "parseMantissa (sg @ body) =
     parseMantissaLoop (length sg) body
       \<lparr>scanMantissa = 0, scanExponent = 0, scanNegative = (sg = ''-''), stopExponent = False,
        stopMantissa = False, digits = False\<rparr>"
  using assms by (auto simp: parseMantissa_def isSign_def isDigit_def)

lemma parseMantissaLoop_end:
  "digits st \<Longrightarrow>
   parseMantissaLoop i [] st =
     Inr (i, \<lparr>negative = scanNegative st, mantissa = scanMantissa st, exponent = scanExponent st\<rparr>)"
  by simp

lemma parseMantissaExponent_whole:
  assumes "parseMantissa s = Inr (length s, num)" and "s \<noteq> []"
  shows "parseMantissaExponent s = Inr (length s, num)"
  using assms by (simp add: parseMantissaExponent_def)

lemma parseMantissaLoop_boundary:
  assumes "isDigit d" and "\<not> stopMantissa st"
    and "2 ^ 64 \<le> 10 * unat (scanMantissa st) + digitOf d"
    and "- 2147483648 \<le> scanExponent st" and "scanExponent st < 2147483646"
  shows "parseMantissaLoop i (d # cs) st =
     parseMantissaLoop (i + 1) cs
       (st\<lparr>scanMantissa :=
             (if roundHalfToEven (10 * unat (scanMantissa st) + digitOf d) 10 < 2 ^ 64
              then of_nat (roundHalfToEven (10 * unat (scanMantissa st) + digitOf d) 10)
              else of_nat (roundHalfToEven (10 * unat (scanMantissa st) + digitOf d) 100)),
           scanExponent :=
             (if stopExponent st then scanExponent st else scanExponent st + 1) +
             (if roundHalfToEven (10 * unat (scanMantissa st) + digitOf d) 10 < 2 ^ 64
              then 0 else 1),
           stopMantissa := True, digits := True\<rparr>)"
proof -
  from assms(1) have d9: "digitOf d \<le> 9" by (rule isDigit_digitOf)
  show ?thesis
    using assms(1) by (simp add: mantissaDigit_rounds[OF d9 assms(2,3,4,5)] add.commute)
qed


lemma parseMantissa_exact:
  assumes sg: "sg = [] \<or> sg = ''+'' \<or> sg = ''-''"
    and pt: "pt = [] \<and> j = length kept \<or> pt = ''.''"
    and kept: "\<forall>c\<in>set kept. isDigit c" "kept \<noteq> []" "decimalValue kept < 2 ^ 64"
    and len: "length kept < 2147483000" and j: "j \<le> length kept"
  shows "parseMantissa (sg @ take j kept @ pt @ drop j kept) =
     Inr (length sg + length kept + length pt,
          \<lparr>negative = (sg = ''-''), mantissa = of_nat (decimalValue kept),
           exponent = int j - int (length kept)\<rparr>)"
proof -
  let ?st0 = "\<lparr>scanMantissa = 0, scanExponent = 0, scanNegative = (sg = ''-''),
      stopExponent = False, stopMantissa = False, digits = False\<rparr>"
  have 1: "\<not> stopMantissa ?st0" "\<not> stopExponent ?st0" by simp_all
  have 2: "unat (scanMantissa ?st0) * 10 ^ length kept + decimalValue kept < 2 ^ 64"
    using kept(3) by simp
  have 3: "- 2147483647 \<le> scanExponent ?st0 - int (length kept)"
    "scanExponent ?st0 \<le> 2147483647"
    using len by simp_all
  have "parseMantissa (sg @ take j kept @ pt @ drop j kept) =
      parseMantissaLoop (length sg) (take j kept @ pt @ drop j kept @ []) ?st0"
    using parseMantissa_sign[OF sg, of "take j kept @ pt @ drop j kept"] by simp
  also have "\<dots> = parseMantissaLoop (length sg + length kept + length pt) []
       (?st0\<lparr>scanMantissa :=
               of_nat (unat (scanMantissa ?st0) * 10 ^ length kept + decimalValue kept),
             scanExponent := scanExponent ?st0 + int j - int (length kept),
             stopExponent := (pt \<noteq> []),
             digits := (digits ?st0 \<or> kept \<noteq> [])\<rparr>)"
    by (rule parseMantissaLoop_fits_point[OF kept(1) j pt 1 2 3])
  also have "\<dots> = Inr (length sg + length kept + length pt,
          \<lparr>negative = (sg = ''-''), mantissa = of_nat (decimalValue kept),
           exponent = int j - int (length kept)\<rparr>)"
    using kept(2) by (subst parseMantissaLoop_end) simp_all
  finally show ?thesis .
qed

lemma parseMantissa_rounded:
  assumes sg: "sg = [] \<or> sg = ''+'' \<or> sg = ''-''"
    and pt: "pt = [] \<and> j = length (kept @ d # rest) \<or> pt = ''.''"
    and kept: "\<forall>c\<in>set kept. isDigit c" "decimalValue kept < 2 ^ 64"
    and d: "isDigit d" "2 ^ 64 \<le> 10 * decimalValue kept + digitOf d"
    and rest: "\<forall>c\<in>set rest. isDigit c"
    and len: "length kept + length rest < 2147483000" and j: "j \<le> length (kept @ d # rest)"
  shows "parseMantissa (sg @ take j (kept @ d # rest) @ pt @ drop j (kept @ d # rest)) =
     Inr (length sg + length (kept @ d # rest) + length pt,
          \<lparr>negative = (sg = ''-''),
           mantissa =
             (if roundHalfToEven (10 * decimalValue kept + digitOf d) 10 < 2 ^ 64
              then of_nat (roundHalfToEven (10 * decimalValue kept + digitOf d) 10)
              else of_nat (roundHalfToEven (10 * decimalValue kept + digitOf d) 100)),
           exponent = int j - int (length kept) +
             (if roundHalfToEven (10 * decimalValue kept + digitOf d) 10 < 2 ^ 64
              then 0 else 1)\<rparr>)"
proof -
  let ?st0 = "\<lparr>scanMantissa = 0, scanExponent = 0, scanNegative = (sg = ''-''),
      stopExponent = False, stopMantissa = False, digits = False\<rparr>"
  let ?v = "10 * decimalValue kept + digitOf d"
  let ?mant = "(if roundHalfToEven ?v 10 < 2 ^ 64 then of_nat (roundHalfToEven ?v 10)
      else of_nat (roundHalfToEven ?v 100)) :: Mantissa"
  let ?k = "(if roundHalfToEven ?v 10 < 2 ^ 64 then 0 else 1) :: int"
  let ?all = "kept @ d # rest"
  have u: "unat (of_nat (decimalValue kept) :: Mantissa) = decimalValue kept"
    using kept(2) by (subst unat_of_nat) simp
  have s0: "\<not> stopMantissa ?st0" "\<not> stopExponent ?st0" by simp_all
  have f0: "unat (scanMantissa ?st0) * 10 ^ length kept + decimalValue kept < 2 ^ 64"
    using kept(2) by simp
  have e0: "- 2147483647 \<le> scanExponent ?st0 - int (length kept)"
    "scanExponent ?st0 \<le> 2147483647"
    using len by simp_all
  have start: "parseMantissa (sg @ take j ?all @ pt @ drop j ?all) =
      parseMantissaLoop (length sg) (take j ?all @ pt @ drop j ?all) ?st0"
    by (rule parseMantissa_sign[OF sg])
  show ?thesis
  proof (cases "j \<le> length kept")
    case True
    with pt have p: "pt = ''.''" by auto
    from True have body: "take j ?all @ pt @ drop j ?all =
        take j kept @ pt @ drop j kept @ (d # rest)"
      by simp
    let ?st1 = "?st0\<lparr>scanMantissa :=
               of_nat (unat (scanMantissa ?st0) * 10 ^ length kept + decimalValue kept),
             scanExponent := scanExponent ?st0 + int j - int (length kept),
             stopExponent := (pt \<noteq> []),
             digits := (digits ?st0 \<or> kept \<noteq> [])\<rparr>"
    let ?st2 = "?st1\<lparr>scanMantissa :=
             (if roundHalfToEven (10 * unat (scanMantissa ?st1) + digitOf d) 10 < 2 ^ 64
              then of_nat (roundHalfToEven (10 * unat (scanMantissa ?st1) + digitOf d) 10)
              else of_nat (roundHalfToEven (10 * unat (scanMantissa ?st1) + digitOf d) 100)),
           scanExponent :=
             (if stopExponent ?st1 then scanExponent ?st1 else scanExponent ?st1 + 1) +
             (if roundHalfToEven (10 * unat (scanMantissa ?st1) + digitOf d) 10 < 2 ^ 64
              then 0 else 1),
           stopMantissa := True, digits := True\<rparr>"
    let ?st3 = "?st2\<lparr>scanExponent :=
             (if stopExponent ?st2 then scanExponent ?st2
              else scanExponent ?st2 + int (length rest)),
           digits := (digits ?st2 \<or> rest \<noteq> [])\<rparr>"
    have b1: "\<not> stopMantissa ?st1" by simp
    have b2: "2 ^ 64 \<le> 10 * unat (scanMantissa ?st1) + digitOf d" using d(2) u by simp
    have b3: "- 2147483648 \<le> scanExponent ?st1" "scanExponent ?st1 < 2147483646"
      using len True by simp_all
    have c1: "stopMantissa ?st2" by simp
    have c2: "- 2147483648 \<le> scanExponent ?st2"
      "scanExponent ?st2 + int (length rest) \<le> 2147483647"
      using len True p by simp_all
    have "parseMantissaLoop (length sg) (take j ?all @ pt @ drop j ?all) ?st0 =
        parseMantissaLoop (length sg + length kept + length pt) (d # rest) ?st1"
      unfolding body by (rule parseMantissaLoop_fits_point[OF kept(1) True _ s0 f0 e0]) (simp add: p)
    also have "\<dots> = parseMantissaLoop (length sg + length kept + length pt + 1) (rest @ []) ?st2"
      unfolding append_Nil2 by (rule parseMantissaLoop_boundary[OF d(1) b1 b2 b3])
    also have "\<dots> = parseMantissaLoop (length sg + length kept + length pt + 1 + length rest) [] ?st3"
      by (rule parseMantissaLoop_stopped[OF rest c1 c2])
    also have "\<dots> = Inr (length sg + length kept + length pt + 1 + length rest,
          \<lparr>negative = scanNegative ?st3, mantissa = scanMantissa ?st3,
           exponent = scanExponent ?st3\<rparr>)"
      by (rule parseMantissaLoop_end) simp
    also have "\<dots> = Inr (length sg + length ?all + length pt,
          \<lparr>negative = (sg = ''-''), mantissa = ?mant,
           exponent = int j - int (length kept) + ?k\<rparr>)"
      using u p by simp
    finally show ?thesis using start by simp
  next
    case False
    define j' where "j' = j - length kept - 1"
    from False j have j': "j = length kept + 1 + j'" "j' \<le> length rest"
      by (simp_all add: j'_def)
    from j' have body: "take j ?all @ pt @ drop j ?all =
        kept @ (d # take j' rest @ pt @ drop j' rest @ [])"
      by simp
    from pt j' have pt': "pt = [] \<and> j' = length rest \<or> pt = ''.''" by auto
    let ?st1 = "?st0\<lparr>scanMantissa :=
               of_nat (unat (scanMantissa ?st0) * 10 ^ length kept + decimalValue kept),
             scanExponent :=
               (if stopExponent ?st0 then scanExponent ?st0 - int (length kept)
                else scanExponent ?st0),
             digits := (digits ?st0 \<or> kept \<noteq> [])\<rparr>"
    let ?st2 = "?st1\<lparr>scanMantissa :=
             (if roundHalfToEven (10 * unat (scanMantissa ?st1) + digitOf d) 10 < 2 ^ 64
              then of_nat (roundHalfToEven (10 * unat (scanMantissa ?st1) + digitOf d) 10)
              else of_nat (roundHalfToEven (10 * unat (scanMantissa ?st1) + digitOf d) 100)),
           scanExponent :=
             (if stopExponent ?st1 then scanExponent ?st1 else scanExponent ?st1 + 1) +
             (if roundHalfToEven (10 * unat (scanMantissa ?st1) + digitOf d) 10 < 2 ^ 64
              then 0 else 1),
           stopMantissa := True, digits := True\<rparr>"
    let ?st3 = "?st2\<lparr>scanExponent := scanExponent ?st2 + int j',
           stopExponent := (pt \<noteq> []),
           digits := (digits ?st2 \<or> rest \<noteq> [])\<rparr>"
    have b1: "\<not> stopMantissa ?st1" by simp
    have b2: "2 ^ 64 \<le> 10 * unat (scanMantissa ?st1) + digitOf d" using d(2) u by simp
    have b3: "- 2147483648 \<le> scanExponent ?st1" "scanExponent ?st1 < 2147483646"
      by simp_all
    have c1: "stopMantissa ?st2" "\<not> stopExponent ?st2" by simp_all
    have c2: "- 2147483648 \<le> scanExponent ?st2"
      "scanExponent ?st2 + int (length rest) \<le> 2147483647"
      using len by simp_all
    have "parseMantissaLoop (length sg) (take j ?all @ pt @ drop j ?all) ?st0 =
        parseMantissaLoop (length sg + length kept)
          (d # take j' rest @ pt @ drop j' rest @ []) ?st1"
      unfolding body by (rule parseMantissaLoop_fits[OF kept(1) s0(1) f0 e0])
    also have "\<dots> = parseMantissaLoop (length sg + length kept + 1)
          (take j' rest @ pt @ drop j' rest @ []) ?st2"
      by (rule parseMantissaLoop_boundary[OF d(1) b1 b2 b3])
    also have "\<dots> = parseMantissaLoop (length sg + length kept + 1 + length rest + length pt) []
          ?st3"
      by (rule parseMantissaLoop_stopped_point[OF rest j'(2) pt' c1 c2])
    also have "\<dots> = Inr (length sg + length kept + 1 + length rest + length pt,
          \<lparr>negative = scanNegative ?st3, mantissa = scanMantissa ?st3,
           exponent = scanExponent ?st3\<rparr>)"
      by (rule parseMantissaLoop_end) simp
    also have "\<dots> = Inr (length sg + length ?all + length pt,
          \<lparr>negative = (sg = ''-''), mantissa = ?mant,
           exponent = int j - int (length kept) + ?k\<rparr>)"
      using u j'(1) by simp
    finally show ?thesis using start by simp
  qed
qed

text \<open>Claim C7. At the 64-bit mantissa overflow boundary \<open>parseMantissaExponent\<close>
  applies round-half-to-even to the retained mantissa. For every literal made of an optional
  sign \<open>sg\<close> and digits with an optional decimal point \<open>pt\<close> after the first \<open>j\<close> of
  them:

  \<^item> if the digits \<open>kept\<close> denote a number below \<open>2 ^ 64\<close>, the literal parses exactly: the
    mantissa is that number, and the exponent is minus the number of digits after the
    point;

  \<^item> if \<open>kept\<close> fits and the next digit \<open>d\<close> no longer does, the mantissa is the number
    \<open>kept\<close> rounded half to even by its first discarded digit \<open>d\<close>, and the exponent
    grows by one for each discarded digit (\<open>d\<close> and \<open>rest\<close>); the digits \<open>rest\<close> after the
    first discarded one do not enter the rounding. When the rounded mantissa would be
    \<open>2 ^ 64\<close>, the number is rounded half to even by two places instead and the exponent
    grows by one more.

  All characters are consumed. The two literals of the claim are the instances
  \<open>kept = 18446744073709551615\<close> and \<open>kept = 1844674407370955161\<close>, \<open>d = 6\<close>.\<close>

theorem parseMantissaExponent_rounds_half_to_even:
  assumes "sg = [] \<or> sg = ''+'' \<or> sg = ''-''"
    and "pt = [] \<or> pt = ''.''"
    and "\<forall>c\<in>set kept. isDigit c" and "kept \<noteq> []" and "decimalValue kept < 2 ^ 64"
    and "length kept + length rest < 2147483000"
  shows
    "(j \<le> length kept \<and> (pt = [] \<longrightarrow> j = length kept) \<longrightarrow>
        parseMantissaExponent (sg @ take j kept @ pt @ drop j kept) =
          Inr (length sg + length kept + length pt,
               \<lparr>negative = (sg = ''-''), mantissa = of_nat (decimalValue kept),
                exponent = int j - int (length kept)\<rparr>)) \<and>
     (isDigit d \<and> (\<forall>c\<in>set rest. isDigit c) \<and>
      2 ^ 64 \<le> 10 * decimalValue kept + digitOf d \<and>
      j \<le> length (kept @ d # rest) \<and> (pt = [] \<longrightarrow> j = length (kept @ d # rest)) \<longrightarrow>
        parseMantissaExponent (sg @ take j (kept @ d # rest) @ pt @ drop j (kept @ d # rest)) =
          Inr (length sg + length (kept @ d # rest) + length pt,
               \<lparr>negative = (sg = ''-''),
                mantissa =
                  (if roundHalfToEven (10 * decimalValue kept + digitOf d) 10 < 2 ^ 64
                   then of_nat (roundHalfToEven (10 * decimalValue kept + digitOf d) 10)
                   else of_nat (roundHalfToEven (10 * decimalValue kept + digitOf d) 100)),
                exponent = int j - int (length kept) +
                  (if roundHalfToEven (10 * decimalValue kept + digitOf d) 10 < 2 ^ 64
                   then 0 else 1)\<rparr>))"
proof (intro conjI impI)
  assume a: "j \<le> length kept \<and> (pt = [] \<longrightarrow> j = length kept)"
  with assms(2) have pt: "pt = [] \<and> j = length kept \<or> pt = ''.''" by auto
  from assms(6) have len: "length kept < 2147483000" by simp
  let ?s = "sg @ take j kept @ pt @ drop j kept"
  from a have l: "length ?s = length sg + length kept + length pt" by simp
  from assms(4) a have ne: "?s \<noteq> []" by (cases "take j kept"; cases "drop j kept") auto
  from parseMantissa_exact[OF assms(1) pt assms(3,4,5) len] a
  have "parseMantissa ?s = Inr (length ?s,
          \<lparr>negative = (sg = ''-''), mantissa = of_nat (decimalValue kept),
           exponent = int j - int (length kept)\<rparr>)"
    unfolding l by simp
  from parseMantissaExponent_whole[OF this ne] l
  show "parseMantissaExponent ?s =
          Inr (length sg + length kept + length pt,
               \<lparr>negative = (sg = ''-''), mantissa = of_nat (decimalValue kept),
                exponent = int j - int (length kept)\<rparr>)"
    by simp
next
  let ?all = "kept @ d # rest"
  let ?v = "10 * decimalValue kept + digitOf d"
  assume a: "isDigit d \<and> (\<forall>c\<in>set rest. isDigit c) \<and> 2 ^ 64 \<le> ?v \<and>
      j \<le> length ?all \<and> (pt = [] \<longrightarrow> j = length ?all)"
  with assms(2) have pt: "pt = [] \<and> j = length ?all \<or> pt = ''.''" by auto
  from a have d: "isDigit d" "2 ^ 64 \<le> ?v" and rest: "\<forall>c\<in>set rest. isDigit c"
    and j: "j \<le> length ?all"
    by simp_all
  let ?s = "sg @ take j ?all @ pt @ drop j ?all"
  from j have l: "length ?s = length sg + length ?all + length pt" by simp
  then have ne: "?s \<noteq> []" by auto
  from parseMantissa_rounded[OF assms(1) pt assms(3,5) d rest assms(6) j]
  have "parseMantissa ?s = Inr (length ?s,
          \<lparr>negative = (sg = ''-''),
           mantissa =
             (if roundHalfToEven ?v 10 < 2 ^ 64 then of_nat (roundHalfToEven ?v 10)
              else of_nat (roundHalfToEven ?v 100)),
           exponent = int j - int (length kept) +
             (if roundHalfToEven ?v 10 < 2 ^ 64 then 0 else 1)\<rparr>)"
    unfolding l .
  from parseMantissaExponent_whole[OF this ne]
  show "parseMantissaExponent ?s =
          Inr (length sg + length ?all + length pt,
               \<lparr>negative = (sg = ''-''),
                mantissa =
                  (if roundHalfToEven ?v 10 < 2 ^ 64 then of_nat (roundHalfToEven ?v 10)
                   else of_nat (roundHalfToEven ?v 100)),
                exponent = int j - int (length kept) +
                  (if roundHalfToEven ?v 10 < 2 ^ 64 then 0 else 1)\<rparr>)"
    unfolding l .
qed

text \<open>The theorem at the two literals of the claim, at the ties \<open>100000000000000011105\<close>
  (even mantissa, kept) and \<open>184467440737095516155\<close> (odd mantissa \<open>2 ^ 64 - 1\<close>, rounded
  up with wrap-around), and at a negative literal with a decimal point.\<close>

lemma digit_values:
  "decimalValue ''18446744073709551615'' = 18446744073709551615"
  "decimalValue ''1844674407370955161'' = 1844674407370955161"
  "decimalValue ''10000000000000001110'' = 10000000000000001110"
  by (simp_all add: decimalValue_def digitOf_def)

theorem parseMantissaExponent_rounds_half_to_even_witness:
  "parseMantissaExponent ''18446744073709551615'' =
     Inr (20, \<lparr>negative = False, mantissa = 18446744073709551615, exponent = 0\<rparr>) \<and>
   parseMantissaExponent ''18446744073709551616'' =
     Inr (20, \<lparr>negative = False, mantissa = 1844674407370955162, exponent = 1\<rparr>) \<and>
   parseMantissaExponent ''100000000000000011105'' =
     Inr (21, \<lparr>negative = False, mantissa = 10000000000000001110, exponent = 1\<rparr>) \<and>
   parseMantissaExponent ''184467440737095516155'' =
     Inr (21, \<lparr>negative = False, mantissa = 1844674407370955162, exponent = 2\<rparr>) \<and>
   parseMantissaExponent ''-1844674407370955161.65'' =
     Inr (23, \<lparr>negative = True, mantissa = 1844674407370955162, exponent = 0\<rparr>)"
proof -
  have dg: "\<forall>c\<in>set ''18446744073709551615''. isDigit c"
    "\<forall>c\<in>set ''1844674407370955161''. isDigit c"
    "\<forall>c\<in>set ''10000000000000001110''. isDigit c"
    "isDigit CHR ''5''" "isDigit CHR ''6''"
    by (simp_all add: isDigit_def)
  have dv: "digitOf CHR ''5'' = 5" "digitOf CHR ''6'' = 6" by (simp_all add: digitOf_def)
  from parseMantissaExponent_rounds_half_to_even
    [of "[]" "[]" "''18446744073709551615''" "[]" 20 "CHR ''5''"] dg
  have 1: "parseMantissaExponent ''18446744073709551615'' =
     Inr (20, \<lparr>negative = False, mantissa = 18446744073709551615, exponent = 0\<rparr>)"
    by (simp add: digit_values)
  from parseMantissaExponent_rounds_half_to_even
    [of "[]" "[]" "''1844674407370955161''" "[]" 20 "CHR ''6''"] dg
  have 2: "parseMantissaExponent ''18446744073709551616'' =
     Inr (20, \<lparr>negative = False, mantissa = 1844674407370955162, exponent = 1\<rparr>)"
    by (simp add: digit_values dv roundHalfToEven_def)
  from parseMantissaExponent_rounds_half_to_even
    [of "[]" "[]" "''10000000000000001110''" "[]" 21 "CHR ''5''"] dg
  have 3: "parseMantissaExponent ''100000000000000011105'' =
     Inr (21, \<lparr>negative = False, mantissa = 10000000000000001110, exponent = 1\<rparr>)"
    by (simp add: digit_values dv roundHalfToEven_def)
  from parseMantissaExponent_rounds_half_to_even
    [of "[]" "[]" "''18446744073709551615''" "[]" 21 "CHR ''5''"] dg
  have 4: "parseMantissaExponent ''184467440737095516155'' =
     Inr (21, \<lparr>negative = False, mantissa = 1844674407370955162, exponent = 2\<rparr>)"
    by (simp add: digit_values dv roundHalfToEven_def)
  from parseMantissaExponent_rounds_half_to_even
    [of "''-''" "''.''" "''1844674407370955161''" "''5''" 19 "CHR ''6''"] dg
  have 5: "parseMantissaExponent ''-1844674407370955161.65'' =
     Inr (23, \<lparr>negative = True, mantissa = 1844674407370955162, exponent = 0\<rparr>)"
    by (simp add: digit_values dv roundHalfToEven_def)
  from 1 2 3 4 5 show ?thesis by blast
qed

text \<open>The same results by evaluation of the parser alone. A second discarded digit is
  ignored: \<open>1000000000000000111051\<close> keeps the mantissa \<open>10000000000000001110\<close>, as the
  tie \<open>100000000000000011105\<close> does.\<close>

lemma boundary_literals_evaluated:
  "parseMantissaExponent ''18446744073709551615'' =
     Inr (20, \<lparr>negative = False, mantissa = 18446744073709551615, exponent = 0\<rparr>) \<and>
   parseMantissaExponent ''18446744073709551616'' =
     Inr (20, \<lparr>negative = False, mantissa = 1844674407370955162, exponent = 1\<rparr>) \<and>
   parseMantissaExponent ''-1844674407370955161.65'' =
     Inr (23, \<lparr>negative = True, mantissa = 1844674407370955162, exponent = 0\<rparr>) \<and>
   parseMantissaExponent ''1000000000000000111051'' =
     Inr (22, \<lparr>negative = False, mantissa = 10000000000000001110, exponent = 2\<rparr>)"
  by code_simp

section \<open>Packer: the named constructors\<close>

text \<open>Claim C6, as stated: the pattern of \<open>nan()\<close> has the most significant bit of the
  mantissa field (bit 51, the quiet bit) set. It has not: the pattern is
  \<open>0x7FF0000000000001\<close>.\<close>

theorem nan_quiet_bit_clear:
  "nan = Inr 0x7FF0000000000001 \<and> \<not> bit (0x7FF0000000000001 :: Integer) 51"
  by (simp add: nan_def number_def mantissaBits_def exponentBits_def)

text \<open>Claim C6, amended: \<open>nan()\<close> returns one fixed pattern with the sign clear, the
  exponent field all-ones and the mantissa field equal to 1.\<close>

theorem nan_pattern:
  "\<exists>w. nan = Inr w \<and> \<not> bit w 63 \<and>
     take_bit exponentBits (drop_bit mantissaBits w) = mask exponentBits \<and>
     take_bit mantissaBits w = 1"
  by (simp add: nan_def number_def mantissaBits_def exponentBits_def mask_eq_exp_minus_1)

section \<open>The converter on a zero mantissa with a negative exponent\<close>

lemma room_zero_overflows: "increaseTenExponentRoom f 0 e = Inl SignedOverflow"
proof (induction f "0::nat" e rule: increaseTenExponentRoom.induct)
  case (1 f e)
  show ?case
  proof (cases "checked (exponentSubnormalMin - reducedMantissaBits + e)")
    case (Inl x)
    then have "x = SignedOverflow" by (simp add: checked_def split: if_splits)
    with Inl show ?thesis
      by (subst increaseTenExponentRoom.simps) (simp add: reducedMax_def twoMultiplier_def)
  next
    case (Inr limit)
    then have lim: "limit = exponentSubnormalMin - reducedMantissaBits + e"
      by (simp add: checked_def split: if_splits)
    have nolt: "\<not> e < limit"
      by (simp add: lim exponentSubnormalMin_def exponentSubnormalBase_def exponentBase_def
          exponentBits_def mantissaBits_def reducedMantissaBits_def)
    note guard = \<open>checked (exponentSubnormalMin - reducedMantissaBits + e) = Inr limit\<close>
    show ?thesis
    proof (cases "checked (e - int (twoFactor f))")
      case (Inl y)
      then have "y = SignedOverflow" by (simp add: checked_def split: if_splits)
      with Inl guard nolt show ?thesis
        by (subst increaseTenExponentRoom.simps) (simp add: reducedMax_def twoMultiplier_def)
    next
      case (Inr e')
      have z: "wrap128 (0 * twoMultiplier f) = 0" by (simp add: wrap128_def)
      have "0 \<le> reducedMax div twoMultiplier f" by simp
      from "1.hyps"[OF this guard nolt Inr z]
      have "increaseTenExponentRoom f 0 e' = Inl SignedOverflow" by (simp add: wrap128_def)
      with Inr guard nolt show ?thesis
        by (subst increaseTenExponentRoom.simps) (simp add: wrap128_def)
    qed
  qed
qed

lemma increaseTenExponent_zero_overflows:
  "t \<le> - int (tenFactor f) \<Longrightarrow> increaseTenExponent f 0 t e = Inl SignedOverflow"
  by (subst increaseTenExponent.simps) (simp add: room_zero_overflows)

lemma increaseTenExponent_skip:
  "\<not> t \<le> - int (tenFactor f) \<Longrightarrow> increaseTenExponent f v t e = Inr (v, t, e)"
  by (subst increaseTenExponent.simps) simp

lemma increaseAll_zero_overflows:
  assumes "t < 0"
  shows "increaseAll 0 t e = Inl SignedOverflow"
proof -
  have "t \<le> -9 \<or> (-9 < t \<and> t \<le> -6) \<or> (-6 < t \<and> t \<le> -3) \<or> (-3 < t \<and> t \<le> -1)"
    using assms by linarith
  then show ?thesis
    by (elim disjE)
      (simp_all add: increaseAll_def increaseTenExponent_zero_overflows increaseTenExponent_skip)
qed

lemma convertTwobase_zero_negative_exponent:
  "mantissa d = 0 \<Longrightarrow> exponent d < 0 \<Longrightarrow> convertTwobase d = Inl SignedOverflow"
  by (simp add: convertTwobase_def increaseAll_zero_overflows)

text \<open>Claim C2. The claim reads: for every decimal number, zero mantissa included,
  \<open>convertTwobase\<close> and its helpers terminate, each loop decreasing the magnitude of the
  remaining base-10 exponent or a shift count. On \<open>0.0\<close>, that is mantissa 0 and exponent
  \<open>-1\<close>, the inner loop of \<open>increaseTenExponent<1, 4>\<close> keeps \<open>varmantissa = 0\<close> and
  \<open>tenexponent = -1\<close> and only lowers \<open>twoexponent\<close>: its bail-out test compares
  \<open>twoexponent\<close> with \<open>twoexponent - 1202\<close> and never holds, and the zero test of
  \<open>convertTwobase\<close> comes after the loops. The run ends in signed overflow.\<close>

theorem convertTwobase_zero_point_zero:
  "parseMantissaExponent ''0.0'' = Inr (3, \<lparr>negative = False, mantissa = 0, exponent = - 1\<rparr>) \<and>
   convertTwobase \<lparr>negative = False, mantissa = 0, exponent = - 1\<rparr> = Inl SignedOverflow"
proof
  show "parseMantissaExponent ''0.0'' = Inr (3, \<lparr>negative = False, mantissa = 0, exponent = - 1\<rparr>)"
    by code_simp
  show "convertTwobase \<lparr>negative = False, mantissa = 0, exponent = - 1\<rparr> = Inl SignedOverflow"
    by (rule convertTwobase_zero_negative_exponent) simp_all
qed

section \<open>The converter establishes the invariant\<close>

lemma nat_bit_top: "n < 2 ^ Suc k \<Longrightarrow> bit (n::nat) k \<longleftrightarrow> 2 ^ k \<le> n"
proof -
  assume a: "n < 2 ^ Suc k"
  then have "n div 2 ^ k < 2" by (simp add: less_mult_imp_div_less mult.commute)
  then have "n div 2 ^ k = 0 \<or> n div 2 ^ k = 1" by linarith
  then show ?thesis
  proof
    assume z: "n div 2 ^ k = 0"
    then have "n < 2 ^ k" by (simp add: div_eq_0_iff)
    with z show ?thesis by (simp add: bit_iff_odd)
  next
    assume o: "n div 2 ^ k = 1"
    then have "\<not> n < 2 ^ k" by (metis div_less zero_neq_one)
    with o show ?thesis by (simp add: bit_iff_odd)
  qed
qed

lemma mantissa_of_nat_less: "v < 2 ^ 53 \<Longrightarrow> (of_nat v :: Mantissa) < 2 ^ 53"
  by (simp add: word_less_nat_alt unat_of_nat)

lemma mantissa_leading_bit: "(m :: Mantissa) < 2 ^ 53 \<Longrightarrow> bit m 52 \<longleftrightarrow> 2 ^ 52 \<le> m"
proof -
  assume "m < 2 ^ 53"
  then have "unat m < 2 ^ Suc 52" by (simp add: word_less_nat_alt)
  then have "bit (unat m) 52 \<longleftrightarrow> 2 ^ 52 \<le> unat m" by (rule nat_bit_top)
  then show ?thesis by (simp add: bit_unsigned_iff word_le_nat_alt)
qed

lemma mantissa_of_nat_leading_bit:
  assumes "2 ^ 52 \<le> v" and "v < 2 ^ 53"
  shows "bit (of_nat v :: Mantissa) 52"
proof -
  have lt: "(of_nat v :: Mantissa) < 2 ^ 53"
    using assms(2) by (rule mantissa_of_nat_less)
  have "2 ^ 52 \<le> (of_nat v :: Mantissa)"
    using assms by (simp add: word_le_nat_alt unat_of_nat)
  with mantissa_leading_bit[OF lt] show ?thesis by blast
qed

lemma divideBy_two_bound: "v < 2 ^ 53 \<Longrightarrow> divideBy v 2 < 2 ^ 53"
proof -
  assume a: "v < 2 ^ 53"
  then have q: "v div 2 < 2 ^ 52" by simp
  have "wrap128 (v div 2 + 1) \<le> v div 2 + 1" by (simp add: wrap128_def)
  with q have "wrap128 (v div 2 + 1) < 2 ^ 53" by simp
  with q show ?thesis by (simp add: divideBy_def Let_def)
qed

lemma reduceMantissa_bound:
  "reduceMantissa v p = Inr (v', p') \<Longrightarrow> v' < 2 ^ 53"
proof (induction v p rule: reduceMantissa.induct)
  case (1 v p)
  show ?case
  proof (cases "v \<ge> 2 ^ mantissaBitsKept")
    case False
    with "1.prems" show ?thesis
      by (subst (asm) reduceMantissa.simps) (simp add: mantissaBitsKept_def mantissaBits_def)
  next
    case True
    with "1.prems" obtain x where x: "checked (p + 1) = Inr x"
      and r: "reduceMantissa (divideBy v 2) x = Inr (v', p')"
      by (subst (asm) reduceMantissa.simps) (auto split: sum.splits)
    from "1.IH"[OF True x r] show ?thesis .
  qed
qed

lemma leadingBitLeft_post:
  "v < 2 ^ 53 \<Longrightarrow> leadingBitLeft v p e = Inr (v', p') \<Longrightarrow>
   v' < 2 ^ 53 \<and> (2 ^ 52 \<le> v' \<or> e + p' \<le> exponentMin)"
proof (induction v p e rule: leadingBitLeft.induct)
  case (1 v p e)
  show ?case
  proof (cases "v < 2 ^ (mantissaBitsKept - 1)")
    case False
    with "1.prems"(2) have "v' = v \<and> p' = p"
      by (subst (asm) leadingBitLeft.simps) simp
    with False "1.prems"(1) show ?thesis
      by (simp add: mantissaBitsKept_def mantissaBits_def)
  next
    case True
    then have small: "v < 2 ^ 52" by (simp add: mantissaBitsKept_def mantissaBits_def)
    from True "1.prems"(2) obtain s where s: "checked (e + p) = Inr s"
      and rest: "(if s > exponentMin then
               (case checked (p - 1) of Inl f \<Rightarrow> Inl f
                | Inr p1 \<Rightarrow> leadingBitLeft (wrap128 (v * 2)) p1 e)
             else Inr (v, p)) = Inr (v', p')"
      by (subst (asm) leadingBitLeft.simps) (auto split: sum.splits)
    have seq: "s = e + p" using s by (simp add: checked_def split: if_splits)
    show ?thesis
    proof (cases "s > exponentMin")
      case False
      with rest seq "1.prems"(1) show ?thesis by auto
    next
      case gt: True
      with rest obtain p1 where p1: "checked (p - 1) = Inr p1"
        and r: "leadingBitLeft (wrap128 (v * 2)) p1 e = Inr (v', p')"
        by (auto split: sum.splits)
      have "wrap128 (v * 2) \<le> v * 2" by (simp add: wrap128_def)
      with small have b: "wrap128 (v * 2) < 2 ^ 53" by simp
      from "1.IH"[OF True s gt p1 b r] show ?thesis .
    qed
  qed
qed

lemma fixExponent_post:
  "v < 2 ^ 53 \<Longrightarrow> fixExponent v e = Inr (v', e') \<Longrightarrow>
   v' < 2 ^ 53 \<and> exponentMin \<le> e' \<and>
   (if e < exponentMin then e' = exponentMin else v' = v \<and> e' = e)"
proof (induction v e rule: fixExponent.induct)
  case (1 v e)
  show ?case
  proof (cases "e < exponentMin")
    case False
    with "1.prems"(2) have "v' = v \<and> e' = e"
      by (subst (asm) fixExponent.simps) simp
    with False "1.prems"(1) show ?thesis by simp
  next
    case True
    with "1.prems"(2) obtain e1 where e1: "checked (e + 1) = Inr e1"
      and r: "fixExponent (divideBy v 2) e1 = Inr (v', e')"
      by (subst (asm) fixExponent.simps) (auto split: sum.splits)
    have e1eq: "e1 = e + 1" using e1 by (simp add: checked_def split: if_splits)
    from "1.IH"[OF True e1 divideBy_two_bound[OF "1.prems"(1)] r]
    have ih: "v' < 2 ^ 53 \<and> exponentMin \<le> e' \<and>
       (if e1 < exponentMin then e' = exponentMin else v' = divideBy v 2 \<and> e' = e1)" .
    with True e1eq show ?thesis by (auto split: if_splits)
  qed
qed

lemma normalize_invariant:
  assumes "normalizeTwobase neg v e = Inr b"
  shows "binaryInvariant b"
proof -
  from assms obtain v1 p1 v2 p2 e2 v3 e3 where
    r1: "reduceMantissa v (int mantissaBits + 1 - 1) = Inr (v1, p1)" and
    r2: "leadingBitLeft v1 p1 e = Inr (v2, p2)" and
    r3: "checked (e + p2) = Inr e2" and
    r4: "fixExponent v2 e2 = Inr (v3, e3)" and
    b: "b = \<lparr>negative = neg, mantissa = of_nat v3, exponent = e3\<rparr>"
    by (auto simp: normalizeTwobase_def split: sum.splits prod.splits)
  have e2eq: "e2 = e + p2" using r3 by (simp add: checked_def split: if_splits)
  from reduceMantissa_bound[OF r1] have v1: "v1 < 2 ^ 53" .
  from leadingBitLeft_post[OF v1 r2] have v2: "v2 < 2 ^ 53"
    and alt: "2 ^ 52 \<le> v2 \<or> e + p2 \<le> exponentMin" by auto
  from fixExponent_post[OF v2 r4] have v3: "v3 < 2 ^ 53" and e3: "exponentMin \<le> e3"
    and how: "if e2 < exponentMin then e3 = exponentMin else v3 = v2 \<and> e3 = e2" by auto
  have "\<not> bit (of_nat v3 :: Mantissa) 52 \<longrightarrow> e3 = exponentMin"
  proof (cases "e2 < exponentMin")
    case True
    with how show ?thesis by simp
  next
    case False
    with how have same: "v3 = v2" "e3 = e2" by auto
    from alt show ?thesis
    proof
      assume "2 ^ 52 \<le> v2"
      with v2 same show ?thesis by (simp add: mantissa_of_nat_leading_bit)
    next
      assume "e + p2 \<le> exponentMin"
      with False e2eq same show ?thesis by simp
    qed
  qed
  moreover have "(of_nat v3 :: Mantissa) < 2 ^ (mantissaBits + 1)"
    using mantissa_of_nat_less[OF v3] by (simp add: mantissaBits_def)
  ultimately show ?thesis
    using e3 b
    by (simp add: binaryInvariant_def mantissaBits_def exponentSubnormalBase_def exponentMin_def)
qed

lemma convertTwobase_invariant: "convertTwobase d = Inr b \<Longrightarrow> binaryInvariant b"
proof -
  assume c: "convertTwobase d = Inr b"
  define stage where "stage =
    (if exponent d > 0 then decreaseAll (unat (mantissa d)) (exponent d) 0
     else if exponent d < 0 then increaseAll (unat (mantissa d)) (exponent d) 0
     else Inr (unat (mantissa d), exponent d, 0))"
  from c have unf: "(case stage of Inl f \<Rightarrow> Inl f
      | Inr (v, t, e) \<Rightarrow>
          if t \<noteq> 0 then Inl AssertionFailed
          else if v = 0 then Inr \<lparr>negative = negative d, mantissa = 0, exponent = 0\<rparr>
          else normalizeTwobase (negative d) v e) = Inr b"
    by (simp add: convertTwobase_def stage_def)
  then obtain v t e where st: "stage = Inr (v, t, e)"
    by (cases stage) auto
  with unf have rest: "(if t \<noteq> 0 then Inl AssertionFailed
          else if v = 0 then Inr \<lparr>negative = negative d, mantissa = 0, exponent = 0\<rparr>
          else normalizeTwobase (negative d) v e) = Inr b"
    by simp
  show ?thesis
  proof (cases "v = 0")
    case True
    with rest have "b = \<lparr>negative = negative d, mantissa = 0, exponent = 0\<rparr>"
      by (auto split: if_splits)
    then show ?thesis
      by (simp add: binaryInvariant_def exponentMin_def exponentBase_def exponentBits_def
          mantissaBits_def)
  next
    case False
    with rest have "normalizeTwobase (negative d) v e = Inr b" by (auto split: if_splits)
    then show ?thesis by (rule normalize_invariant)
  qed
qed


lemma stripped_mantissa_less:
  assumes "(m :: Mantissa) < 2 ^ 53"
  shows "m AND NOT (push_bit 52 1) < push_bit 52 1"
proof -
  let ?x = "m AND NOT (push_bit 52 1)"
  have "?x \<le> m" by (rule word_and_le2)
  with assms have lt: "?x < 2 ^ 53" by simp
  have "\<not> bit ?x 52" by (simp add: bit_and_iff bit_not_iff bit_push_bit_iff)
  with mantissa_leading_bit[OF lt] have "\<not> 2 ^ 52 \<le> ?x" by blast
  then show ?thesis by (simp add: not_le)
qed

lemma number_defined: "m < push_bit mantissaBits 1 \<Longrightarrow> \<exists>w. number neg m e = Inr w"
  by (simp add: number_def Let_def)

lemma toIEEE754_defined:
  assumes "binaryInvariant b"
  shows "\<exists>w. toIEEE754 b = Inr w"
proof -
  from assms have m: "mantissa b < 2 ^ 53" and e: "exponentMin \<le> exponent b"
    and sub: "\<not> bit (mantissa b) 52 \<Longrightarrow> mantissa b = 0 \<or> exponent b = exponentSubnormalBase"
    by (simp_all add: binaryInvariant_def mantissaBits_def)
  have z: "\<exists>w. zero (negative b) = Inr w"
    unfolding zero_def by (rule number_defined) (simp add: mantissaBits_def)
  have i: "\<exists>w. infinity (negative b) = Inr w"
    unfolding infinity_def by (rule number_defined) (simp add: mantissaBits_def)
  show ?thesis
  proof (cases "mantissa b = 0 \<or> exponent b < exponentSubnormalMin")
    case True
    with z show ?thesis by (simp add: toIEEE754_def)
  next
    case nz: False
    show ?thesis
    proof (cases "exponent b > exponentMax")
      case True
      with nz i show ?thesis by (simp add: toIEEE754_def)
    next
      case le: False
      show ?thesis
      proof (cases "bit (mantissa b) 52")
        case True
        then have t: "mantissa b AND push_bit mantissaBits 1 \<noteq> 0"
          by (simp add: mantissaBits_def bit_iff_and_push_bit_not_eq_0)
        from e le have c: "checked (exponent b + exponentBase) = Inr (exponent b + exponentBase)"
          and p: "exponent b + exponentBase \<noteq> 0"
          by (simp_all add: checked_def exponentMin_def exponentMax_def exponentBase_def
              exponentBits_def)
        have "\<exists>w. number (negative b) (mantissa b AND NOT (push_bit mantissaBits 1))
            (exponent b + exponentBase) = Inr w"
          using stripped_mantissa_less[OF m] by (intro number_defined) (simp only: mantissaBits_def)
        with nz le t c p e show ?thesis by (simp add: toIEEE754_def Let_def)
      next
        case False
        then have t: "\<not> mantissa b AND push_bit mantissaBits 1 \<noteq> 0"
          by (simp add: mantissaBits_def bit_iff_and_push_bit_not_eq_0)
        from sub[OF False] nz have s: "exponent b = exponentSubnormalBase" by simp
        from False mantissa_leading_bit[OF m] have "mantissa b < 2 ^ 52" by (simp add: not_le)
        then have "\<exists>w. number (negative b) (mantissa b) 0 = Inr w"
          by (intro number_defined) (simp add: mantissaBits_def)
        with nz le t s show ?thesis by (simp add: toIEEE754_def)
      qed
    qed
  qed
qed

text \<open>The loops fail by signed overflow only, and the base-10 exponent is exhausted when
  the four steps are through: \<open>assert(tenexponent == 0)\<close> holds.\<close>

lemma checked_failure: "checked x = Inl f \<Longrightarrow> f = SignedOverflow"
  by (simp add: checked_def split: if_splits)

lemma decreaseTenExponent_failure:
  "decreaseTenExponent g v t e = Inl f \<Longrightarrow> f = SignedOverflow"
  apply (induction g v t e rule: decreaseTenExponent.induct)
  apply (subst (asm) (3) decreaseTenExponent.simps)
  apply (auto split: if_splits sum.splits dest: checked_failure)
  done

lemma increaseTenExponentRoom_failure:
  "increaseTenExponentRoom g v e = Inl f \<Longrightarrow> f = SignedOverflow"
  apply (induction g v e rule: increaseTenExponentRoom.induct)
  apply (subst (asm) (2) increaseTenExponentRoom.simps)
  apply (auto split: if_splits sum.splits dest: checked_failure)
  done

lemma increaseTenExponent_failure:
  "increaseTenExponent g v t e = Inl f \<Longrightarrow> f = SignedOverflow"
  apply (induction g v t e rule: increaseTenExponent.induct)
  apply (subst (asm) (2) increaseTenExponent.simps)
  apply (auto split: if_splits sum.splits option.splits dest: checked_failure increaseTenExponentRoom_failure)
  done

lemma reduceMantissa_failure: "reduceMantissa v p = Inl f \<Longrightarrow> f = SignedOverflow"
  apply (induction v p rule: reduceMantissa.induct)
  apply (subst (asm) (2) reduceMantissa.simps)
  apply (auto split: if_splits sum.splits dest: checked_failure)
  done

lemma leadingBitLeft_failure: "leadingBitLeft v p e = Inl f \<Longrightarrow> f = SignedOverflow"
  apply (induction v p e rule: leadingBitLeft.induct)
  apply (subst (asm) (2) leadingBitLeft.simps)
  apply (auto split: if_splits sum.splits dest: checked_failure)
  done

lemma fixExponent_failure: "fixExponent v e = Inl f \<Longrightarrow> f = SignedOverflow"
  apply (induction v e rule: fixExponent.induct)
  apply (subst (asm) (2) fixExponent.simps)
  apply (auto split: if_splits sum.splits dest: checked_failure)
  done

lemma decreaseTenExponent_rest:
  "decreaseTenExponent f v t e = Inr (v', t', e') \<Longrightarrow> 0 \<le> t \<Longrightarrow>
   0 \<le> t' \<and> t' < int (tenFactor f)"
proof (induction f v t e rule: decreaseTenExponent.induct)
  case (1 f v t e)
  have pos: "0 < tenFactor f" by (cases f) simp_all
  show ?case
  proof (cases "t \<ge> int (tenFactor f)")
    case False
    with "1.prems" show ?thesis by (subst (asm) decreaseTenExponent.simps) simp
  next
    case True
    then have c: "checked (t - int (tenFactor f)) = Inr (t - int (tenFactor f)) \<or>
      checked (t - int (tenFactor f)) = Inl SignedOverflow"
      by (simp add: checked_def)
    have nn: "0 \<le> t - int (tenFactor f)" using True by simp
    show ?thesis
    proof (cases "v > reducedMax div twoMultiplier f")
      case big: True
      show ?thesis
      proof (cases "checked (e + int (twoFactor f))")
        case (Inl x)
        with True big "1.prems"(1) show ?thesis
          by (subst (asm) decreaseTenExponent.simps) simp
      next
        case (Inr e1)
        show ?thesis
        proof (cases "e1 > exponentMax")
          case True
          with \<open>t \<ge> int (tenFactor f)\<close> big Inr "1.prems"(1) pos show ?thesis
            by (subst (asm) decreaseTenExponent.simps) simp
        next
          case False
          with \<open>t \<ge> int (tenFactor f)\<close> big Inr "1.prems"(1) c
          have t1: "checked (t - int (tenFactor f)) = Inr (t - int (tenFactor f))"
            and r: "decreaseTenExponent f
              (wrap128 (divideBy v (twoMultiplier f) * tenMultiplier f))
              (t - int (tenFactor f)) e1 = Inr (v', t', e')"
            by (subst (asm) decreaseTenExponent.simps, auto)+
          from "1.IH"(1)[OF \<open>t \<ge> int (tenFactor f)\<close> big Inr False t1 r nn] show ?thesis .
        qed
      qed
    next
      case small: False
      with True "1.prems"(1) c
      have t1: "checked (t - int (tenFactor f)) = Inr (t - int (tenFactor f))"
        and r: "decreaseTenExponent f (wrap128 (v * tenMultiplier f))
              (t - int (tenFactor f)) e = Inr (v', t', e')"
        by (subst (asm) decreaseTenExponent.simps, auto)+
      from "1.IH"(2)[OF True small t1 r nn] show ?thesis .
    qed
  qed
qed


lemma increaseTenExponent_rest:
  "increaseTenExponent f v t e = Inr (v', t', e') \<Longrightarrow> t \<le> 0 \<Longrightarrow>
   t' \<le> 0 \<and> - int (tenFactor f) < t'"
proof (induction f v t e rule: increaseTenExponent.induct)
  case (1 f v t e)
  have pos: "0 < tenFactor f" by (cases f) simp_all
  show ?case
  proof (cases "t \<le> - int (tenFactor f)")
    case False
    with "1.prems" show ?thesis by (subst (asm) increaseTenExponent.simps) simp
  next
    case True
    then have np: "t + int (tenFactor f) \<le> 0" by simp
    show ?thesis
    proof (cases "increaseTenExponentRoom f v e")
      case (Inl x)
      with True "1.prems"(1) show ?thesis by (subst (asm) increaseTenExponent.simps) simp
    next
      case (Inr r)
      show ?thesis
      proof (cases r)
        case None
        with True Inr "1.prems"(1) pos show ?thesis
          by (subst (asm) increaseTenExponent.simps) simp
      next
        case (Some p)
        obtain v1 e1 where p: "p = (v1, e1)" by (cases p)
        from True Inr Some p "1.prems"(1)
        have t1: "checked (t + int (tenFactor f)) = Inr (t + int (tenFactor f))"
          and r: "increaseTenExponent f (divideBy v1 (tenMultiplier f))
              (t + int (tenFactor f)) e1 = Inr (v', t', e')"
          by (subst (asm) increaseTenExponent.simps, auto simp: checked_def split: if_splits)+
        from Inr Some p have room: "increaseTenExponentRoom f v e = Inr (Some (v1, e1))" by simp
        from "1.IH"[OF True room refl refl t1 r np] show ?thesis .
      qed
    qed
  qed
qed

lemma decreaseAll_rest:
  assumes "decreaseAll v t e = Inr (v', t', e')" and "0 \<le> t"
  shows "t' = 0"
proof -
  from assms(1) obtain v1 t1 e1 v2 t2 e2 v3 t3 e3 where
    a: "decreaseTenExponent F9_30 v t e = Inr (v1, t1, e1)" and
    b: "decreaseTenExponent F6_20 v1 t1 e1 = Inr (v2, t2, e2)" and
    c: "decreaseTenExponent F3_10 v2 t2 e2 = Inr (v3, t3, e3)" and
    d: "decreaseTenExponent F1_4 v3 t3 e3 = Inr (v', t', e')"
    by (auto simp: decreaseAll_def split: sum.splits)
  from decreaseTenExponent_rest[OF a assms(2)] have "0 \<le> t1" by simp
  from decreaseTenExponent_rest[OF b this] have "0 \<le> t2" by simp
  from decreaseTenExponent_rest[OF c this] have "0 \<le> t3" by simp
  from decreaseTenExponent_rest[OF d this] show ?thesis by simp
qed

lemma increaseAll_rest:
  assumes "increaseAll v t e = Inr (v', t', e')" and "t \<le> 0"
  shows "t' = 0"
proof -
  from assms(1) obtain v1 t1 e1 v2 t2 e2 v3 t3 e3 where
    a: "increaseTenExponent F9_30 v t e = Inr (v1, t1, e1)" and
    b: "increaseTenExponent F6_20 v1 t1 e1 = Inr (v2, t2, e2)" and
    c: "increaseTenExponent F3_10 v2 t2 e2 = Inr (v3, t3, e3)" and
    d: "increaseTenExponent F1_4 v3 t3 e3 = Inr (v', t', e')"
    by (auto simp: increaseAll_def split: sum.splits)
  from increaseTenExponent_rest[OF a assms(2)] have "t1 \<le> 0" by simp
  from increaseTenExponent_rest[OF b this] have "t2 \<le> 0" by simp
  from increaseTenExponent_rest[OF c this] have "t3 \<le> 0" by simp
  from increaseTenExponent_rest[OF d this] show ?thesis by simp
qed

lemma decreaseAll_failure: "decreaseAll v t e = Inl f \<Longrightarrow> f = SignedOverflow"
  by (auto simp: decreaseAll_def split: sum.splits prod.splits dest!: decreaseTenExponent_failure)

lemma increaseAll_failure: "increaseAll v t e = Inl f \<Longrightarrow> f = SignedOverflow"
  by (auto simp: increaseAll_def split: sum.splits prod.splits dest!: increaseTenExponent_failure)

lemma normalizeTwobase_failure: "normalizeTwobase neg v e = Inl f \<Longrightarrow> f = SignedOverflow"
  by (auto simp: normalizeTwobase_def split: sum.splits prod.splits
      dest!: reduceMantissa_failure leadingBitLeft_failure fixExponent_failure checked_failure)

lemma convertTwobase_failure:
  assumes "convertTwobase d = Inl f"
  shows "f = SignedOverflow"
proof -
  define stage where "stage =
    (if exponent d > 0 then decreaseAll (unat (mantissa d)) (exponent d) 0
     else if exponent d < 0 then increaseAll (unat (mantissa d)) (exponent d) 0
     else Inr (unat (mantissa d), exponent d, 0))"
  from assms have unf: "(case stage of Inl f \<Rightarrow> Inl f
      | Inr (v, t, e) \<Rightarrow>
          if t \<noteq> 0 then Inl AssertionFailed
          else if v = 0 then Inr \<lparr>negative = negative d, mantissa = 0, exponent = 0\<rparr>
          else normalizeTwobase (negative d) v e) = Inl f"
    by (simp add: convertTwobase_def stage_def)
  show ?thesis
  proof (cases stage)
    case (Inl x)
    with unf have "stage = Inl f" by simp
    then show ?thesis
      by (auto simp: stage_def split: if_splits dest: decreaseAll_failure increaseAll_failure)
  next
    case (Inr r)
    obtain v t e where r: "r = (v, t, e)" by (cases r)
    from Inr r have "t = 0"
      by (auto simp: stage_def split: if_splits dest: decreaseAll_rest increaseAll_rest)
    with unf Inr r show ?thesis
      by (auto split: if_splits dest: normalizeTwobase_failure)
  qed
qed

lemma mantissaDigit_failure: "mantissaDigit st digit = Inl f \<Longrightarrow> f = SignedOverflow"
  by (auto simp: mantissaDigit_def Let_def split: if_splits sum.splits dest: checked_failure)

lemma parseMantissaLoop_failure:
  "parseMantissaLoop i s st = Inl f \<Longrightarrow> f = SignedOverflow"
  by (induction i s st rule: parseMantissaLoop.induct)
    (auto split: if_splits sum.splits dest: mantissaDigit_failure)

lemma parseExponentLoop_failure:
  "parseExponentLoop i s expo neg = Inl f \<Longrightarrow> f = SignedOverflow"
  by (induction i s expo neg rule: parseExponentLoop.induct)
    (auto simp: Let_def split: if_splits sum.splits dest: checked_failure)

lemma parseMantissaExponent_failure:
  "parseMantissaExponent s = Inl f \<Longrightarrow> f = SignedOverflow"
  by (auto simp: parseMantissaExponent_def parseMantissa_def parseExponent_def Let_def
      split: if_splits sum.splits prod.splits
      dest: parseMantissaLoop_failure parseExponentLoop_failure checked_failure)

lemma infinity_values:
  "infinity False = Inr 0x7FF0000000000000" "infinity True = Inr 0xFFF0000000000000"
  "nan = Inr 0x7FF0000000000001"
  by (simp_all add: infinity_def nan_def number_def mantissaBits_def exponentBits_def)

lemma toIEEE754_after_convert:
  assumes "convertTwobase d = Inr b"
  shows "\<exists>w. toIEEE754 b = Inr w"
  using assms convertTwobase_invariant toIEEE754_defined by blast

lemma toIEEE754Double_failure: "toIEEE754Double s = Inl f \<Longrightarrow> f = SignedOverflow"
  using toIEEE754_after_convert
  by (fastforce simp: toIEEE754Double_def toMantissaExponent_def split: sum.splits prod.splits
      dest: parseMantissaExponent_failure convertTwobase_failure)

lemma toAnyDouble_failure: "toAnyDouble s = Inl f \<Longrightarrow> f = SignedOverflow"
  using toIEEE754_after_convert
  by (fastforce simp: toAnyDouble_def infinity_values Let_def
      split: sum.splits prod.splits if_splits
      dest: parseMantissaExponent_failure convertTwobase_failure)

text \<open>The converter returns a number whenever the mantissa is nonzero or the exponent is
  not negative, for every base-10 exponent from \<open>-10000000\<close> up to the maximum of the type:
  no signed operation overflows there. The accumulator stays positive through every
  \<open>divideBy\<close> of the increasing steps, so their inner loop ends after at most 128 bits of
  shifting, and the base-2 exponent falls by at most 128 for each unit of the base-10
  exponent.\<close>

lemma wrap128_le: "wrap128 x \<le> reducedMax"
proof -
  have "x mod 2 ^ 128 < (2 ^ 128 :: nat)" by simp
  then show ?thesis unfolding wrap128_def reducedMax_def by linarith
qed

lemma wrap128_id: "x \<le> reducedMax \<Longrightarrow> wrap128 x = x"
  by (simp add: wrap128_def reducedMax_def)

lemma divideBy_bounds:
  assumes "n \<le> reducedMax" and "2 \<le> d"
  shows "n div d \<le> divideBy n d \<and> divideBy n d \<le> reducedMax"
proof -
  have "n div d \<le> n div 2" using assms(2) by (simp add: div_le_mono2)
  also have "\<dots> < 2 ^ 127" using assms(1) by (simp add: reducedMax_def)
  finally have q: "n div d < 2 ^ 127" .
  then have "n div d + 1 \<le> reducedMax" by (simp add: reducedMax_def)
  then have "wrap128 (n div d + 1) = n div d + 1" by (rule wrap128_id)
  with q show ?thesis by (simp add: divideBy_def Let_def reducedMax_def)
qed

lemma divideBy_two_le:
  assumes "v \<le> 2 ^ k" and "1 \<le> k"
  shows "divideBy v 2 \<le> 2 ^ (k - 1)"
proof -
  from assms(2) obtain j where k: "k = Suc j" by (cases k) auto
  from assms(1) k have q: "v div 2 \<le> 2 ^ j" by simp
  show ?thesis
  proof (cases "v mod 2 = 1")
    case False
    with q k show ?thesis by (simp add: divideBy_def)
  next
    case True
    then have "v \<noteq> 2 ^ k" using k by auto
    with assms(1) have "v < 2 * 2 ^ j" using k by simp
    with True have "v div 2 < 2 ^ j" by presburger
    then have "v div 2 + 1 \<le> 2 ^ j" by simp
    moreover have "wrap128 (v div 2 + 1) \<le> v div 2 + 1" by (simp add: wrap128_def)
    ultimately show ?thesis using q k by (simp add: divideBy_def Let_def)
  qed
qed

lemma tenFactor_pos: "0 < tenFactor f" "tenFactor f \<le> 9"
  by (cases f; simp)+

lemma twoFactor_bounds: "0 < twoFactor f" "twoFactor f \<le> 30"
  by (cases f; simp)+

lemma multiplier_bounds:
  "2 \<le> twoMultiplier f" "2 \<le> tenMultiplier f"
  "tenMultiplier f \<le> reducedMax div twoMultiplier f"
  by (cases f; simp add: twoMultiplier_def tenMultiplier_def reducedMax_def)+

lemma decreaseTenExponent_returns:
  "0 \<le> e \<Longrightarrow> e \<le> exponentMax + 1 \<Longrightarrow> t \<le> 2147483647 \<Longrightarrow>
   \<exists>v' t' e'. decreaseTenExponent f v t e = Inr (v', t', e') \<and>
     (v \<le> reducedMax \<longrightarrow> v' \<le> reducedMax) \<and> 0 \<le> e' \<and> e' \<le> exponentMax + 1 \<and>
     t' \<le> 2147483647"
proof (induction f v t e rule: decreaseTenExponent.induct)
  case (1 f v t e)
  note k = tenFactor_pos[of f] and m = twoFactor_bounds[of f]
  have emax: "exponentMax = 1023" by (simp add: exponentMax_def exponentBase_def exponentBits_def)
  show ?case
  proof (cases "t \<ge> int (tenFactor f)")
    case False
    with "1.prems" show ?thesis by (subst decreaseTenExponent.simps) simp
  next
    case True
    with "1.prems"(3) k have ct: "checked (t - int (tenFactor f)) = Inr (t - int (tenFactor f))"
      by (simp add: checked_def)
    show ?thesis
    proof (cases "v > reducedMax div twoMultiplier f")
      case big: True
      from "1.prems"(1,2) m emax
      have ce: "checked (e + int (twoFactor f)) = Inr (e + int (twoFactor f))"
        by (simp add: checked_def)
      show ?thesis
      proof (cases "e + int (twoFactor f) > exponentMax")
        case True
        with \<open>t \<ge> int (tenFactor f)\<close> big ce emax show ?thesis
          by (subst decreaseTenExponent.simps) (simp add: reducedMax_def)
      next
        case False
        have "\<exists>v' t' e'. decreaseTenExponent f
            (wrap128 (divideBy v (twoMultiplier f) * tenMultiplier f))
            (t - int (tenFactor f)) (e + int (twoFactor f)) = Inr (v', t', e') \<and>
          (wrap128 (divideBy v (twoMultiplier f) * tenMultiplier f) \<le> reducedMax \<longrightarrow>
             v' \<le> reducedMax) \<and>
          0 \<le> e' \<and> e' \<le> exponentMax + 1 \<and> t' \<le> 2147483647"
          using "1.prems" False m
          by (intro "1.IH"(1)[OF \<open>t \<ge> int (tenFactor f)\<close> big ce False ct]) simp_all
        with \<open>t \<ge> int (tenFactor f)\<close> big ce False ct show ?thesis
          by (subst decreaseTenExponent.simps) (auto simp: wrap128_le)
      qed
    next
      case small: False
      have "\<exists>v' t' e'. decreaseTenExponent f (wrap128 (v * tenMultiplier f))
            (t - int (tenFactor f)) e = Inr (v', t', e') \<and>
          (wrap128 (v * tenMultiplier f) \<le> reducedMax \<longrightarrow> v' \<le> reducedMax) \<and>
          0 \<le> e' \<and> e' \<le> exponentMax + 1 \<and> t' \<le> 2147483647"
        using "1.prems"
        by (intro "1.IH"(2)[OF True small ct]) simp_all
      with True small ct show ?thesis
        by (subst decreaseTenExponent.simps) (auto simp: wrap128_le)
    qed
  qed
qed


lemma reduceMantissa_returns:
  "v \<le> 2 ^ k \<Longrightarrow> - 2147483648 \<le> p \<Longrightarrow> p + int k \<le> 2147483647 \<Longrightarrow>
   \<exists>v' p'. reduceMantissa v p = Inr (v', p') \<and> p \<le> p' \<and> p' \<le> p + int k"
proof (induction v p arbitrary: k rule: reduceMantissa.induct)
  case (1 v p)
  show ?case
  proof (cases "v \<ge> 2 ^ mantissaBitsKept")
    case False
    then show ?thesis by (subst reduceMantissa.simps) simp
  next
    case True
    have "(2::nat) ^ mantissaBitsKept \<le> 2 ^ k" using True "1.prems"(1) by (rule le_trans)
    then have "mantissaBitsKept \<le> k" by simp
    then have k1: "1 \<le> k" by (simp add: mantissaBitsKept_def)
    with "1.prems" have cp: "checked (p + 1) = Inr (p + 1)" by (simp add: checked_def)
    from divideBy_two_le[OF "1.prems"(1) k1] have d: "divideBy v 2 \<le> 2 ^ (k - 1)" .
    have "\<exists>v' p'. reduceMantissa (divideBy v 2) (p + 1) = Inr (v', p') \<and>
        p + 1 \<le> p' \<and> p' \<le> p + 1 + int (k - 1)"
      using "1.prems" k1 by (intro "1.IH"[OF True cp d]) simp_all
    with True cp k1 show ?thesis
      by (subst reduceMantissa.simps) (auto simp: of_nat_diff)
  qed
qed

lemma leadingBitLeft_returns:
  "- 2000000000 \<le> e \<Longrightarrow> e \<le> 2000 \<Longrightarrow> - 2000000000 \<le> e + p \<Longrightarrow> p \<le> 2000 \<Longrightarrow>
   \<exists>v' p'. leadingBitLeft v p e = Inr (v', p') \<and> - 2000000000 \<le> e + p' \<and> p' \<le> 2000"
proof (induction v p e rule: leadingBitLeft.induct)
  case (1 v p e)
  have emin: "exponentMin = - 1022"
    by (simp add: exponentMin_def exponentBase_def exponentBits_def)
  show ?case
  proof (cases "v < 2 ^ (mantissaBitsKept - 1)")
    case False
    with "1.prems" show ?thesis by (subst leadingBitLeft.simps) simp
  next
    case True
    from "1.prems" have cs: "checked (e + p) = Inr (e + p)" by (simp add: checked_def)
    show ?thesis
    proof (cases "e + p > exponentMin")
      case False
      with True cs "1.prems" show ?thesis by (subst leadingBitLeft.simps) simp
    next
      case gt: True
      with "1.prems" emin have cp: "checked (p - 1) = Inr (p - 1)" by (simp add: checked_def)
      have "\<exists>v' p'. leadingBitLeft (wrap128 (v * 2)) (p - 1) e = Inr (v', p') \<and>
          - 2000000000 \<le> e + p' \<and> p' \<le> 2000"
        using "1.prems" gt emin by (intro "1.IH"[OF True cs gt cp]) simp_all
      with True cs gt cp show ?thesis by (subst leadingBitLeft.simps) simp
    qed
  qed
qed

lemma fixExponent_returns:
  "- 2147483648 \<le> e \<Longrightarrow> e \<le> 2147483647 \<Longrightarrow> \<exists>v' e'. fixExponent v e = Inr (v', e')"
proof (induction v e rule: fixExponent.induct)
  case (1 v e)
  have emin: "exponentMin = - 1022"
    by (simp add: exponentMin_def exponentBase_def exponentBits_def)
  show ?case
  proof (cases "e < exponentMin")
    case False
    then show ?thesis by (subst fixExponent.simps) simp
  next
    case True
    with "1.prems" emin have ce: "checked (e + 1) = Inr (e + 1)" by (simp add: checked_def)
    have "\<exists>v' e'. fixExponent (divideBy v 2) (e + 1) = Inr (v', e')"
      using "1.prems" True emin by (intro "1.IH"[OF True ce]) simp_all
    with True ce show ?thesis by (subst fixExponent.simps) simp
  qed
qed

lemma normalizeTwobase_returns:
  assumes "v \<le> reducedMax" and "- 2000000000 \<le> e" and "e \<le> 2000"
  shows "\<exists>b. normalizeTwobase neg v e = Inr b"
proof -
  from assms(1) have "v \<le> 2 ^ 128" by (simp add: reducedMax_def)
  from reduceMantissa_returns[OF this, of "int mantissaBits + 1 - 1"]
  obtain v1 p1 where r1: "reduceMantissa v (int mantissaBits + 1 - 1) = Inr (v1, p1)"
    and p1: "52 \<le> p1" "p1 \<le> 180"
    by (auto simp: mantissaBits_def)
  from leadingBitLeft_returns[of e p1 v1] assms(2,3) p1
  obtain v2 p2 where r2: "leadingBitLeft v1 p1 e = Inr (v2, p2)"
    and p2: "- 2000000000 \<le> e + p2" "p2 \<le> 2000"
    by auto
  from p2 assms(3) have r3: "checked (e + p2) = Inr (e + p2)" by (simp add: checked_def)
  from fixExponent_returns[of "e + p2" v2] p2 assms(3)
  obtain v3 e3 where r4: "fixExponent v2 (e + p2) = Inr (v3, e3)" by auto
  from r1 r2 r3 r4 show ?thesis by (simp add: normalizeTwobase_def)
qed


lemma increaseTenExponentRoom_returns:
  "2 ^ j \<le> v \<Longrightarrow> v \<le> reducedMax \<Longrightarrow> j \<le> 128 \<Longrightarrow> e \<le> 0 \<Longrightarrow>
   - 2147482000 \<le> e - int (128 - j) \<Longrightarrow>
   \<exists>v' e'. increaseTenExponentRoom f v e = Inr (Some (v', e')) \<and>
     e - int (128 - j) \<le> e' \<and> e' \<le> e \<and> reducedMax div twoMultiplier f < v' \<and> v' \<le> reducedMax"
proof (induction f v e arbitrary: j rule: increaseTenExponentRoom.induct)
  case (1 f v e)
  note m = twoFactor_bounds[of f]
  show ?case
  proof (cases "v \<le> reducedMax div twoMultiplier f")
    case False
    with "1.prems" show ?thesis by (subst increaseTenExponentRoom.simps) simp
  next
    case True
    have lim: "exponentSubnormalMin - reducedMantissaBits + e = e - 1202"
      by (simp add: exponentSubnormalMin_def exponentSubnormalBase_def exponentBase_def
          exponentBits_def mantissaBits_def reducedMantissaBits_def)
    from "1.prems"(4,5) have cl:
      "checked (exponentSubnormalMin - reducedMantissaBits + e) = Inr (e - 1202)"
      by (simp add: lim checked_def)
    have nb: "\<not> e < e - 1202" by simp
    from "1.prems"(4,5) m have ce: "checked (e - int (twoFactor f)) = Inr (e - int (twoFactor f))"
      by (simp add: checked_def)
    have tm: "0 < twoMultiplier f" by (simp add: twoMultiplier_def)
    from True have "v * twoMultiplier f \<le> reducedMax div twoMultiplier f * twoMultiplier f"
      by (rule mult_le_mono1)
    also have "\<dots> \<le> reducedMax" by (rule div_times_less_eq_dividend)
    finally have prod: "v * twoMultiplier f \<le> reducedMax" .
    then have w: "wrap128 (v * twoMultiplier f) = v * twoMultiplier f" by (rule wrap128_id)
    have low: "2 ^ (j + twoFactor f) \<le> v * twoMultiplier f"
      using "1.prems"(1) by (simp add: twoMultiplier_def power_add)
    from low prod have "2 ^ (j + twoFactor f) \<le> reducedMax" by (rule le_trans)
    also have "reducedMax < 2 ^ 128" by (simp add: reducedMax_def)
    finally have "(2::nat) ^ (j + twoFactor f) < 2 ^ 128" .
    then have jm: "j + twoFactor f < 128"
      by (rule power_less_imp_less_exp[rotated]) simp
    have "\<exists>v' e'. increaseTenExponentRoom f (wrap128 (v * twoMultiplier f))
          (e - int (twoFactor f)) = Inr (Some (v', e')) \<and>
        e - int (twoFactor f) - int (128 - (j + twoFactor f)) \<le> e' \<and>
        e' \<le> e - int (twoFactor f) \<and> reducedMax div twoMultiplier f < v' \<and> v' \<le> reducedMax"
      using "1.prems" jm low prod w
      by (intro "1.IH"[OF True cl _ ce]) (simp_all add: of_nat_diff)
    with True cl ce jm show ?thesis
      by (subst increaseTenExponentRoom.simps) (auto simp: of_nat_diff)
  qed
qed

lemma increaseTenExponent_returns:
  "1 \<le> v \<Longrightarrow> v \<le> reducedMax \<Longrightarrow> t \<le> 0 \<Longrightarrow> e \<le> 0 \<Longrightarrow>
   - 2147482000 \<le> e + 128 * t \<Longrightarrow>
   \<exists>v' t' e'. increaseTenExponent f v t e = Inr (v', t', e') \<and> 1 \<le> v' \<and> v' \<le> reducedMax \<and>
     e' \<le> 0 \<and> e + 128 * t \<le> e' + 128 * t'"
proof (induction f v t e rule: increaseTenExponent.induct)
  case (1 f v t e)
  note k = tenFactor_pos[of f]
  show ?case
  proof (cases "t \<le> - int (tenFactor f)")
    case False
    with "1.prems" show ?thesis by (subst increaseTenExponent.simps) simp
  next
    case True
    from "1.prems" True k have pre: "- 2147482000 \<le> e - int (128 - 0)" by simp
    from increaseTenExponentRoom_returns[of 0 v e f] "1.prems" pre
    obtain v1 e1 where room: "increaseTenExponentRoom f v e = Inr (Some (v1, e1))"
      and e1: "e - 128 \<le> e1" "e1 \<le> e"
      and v1: "reducedMax div twoMultiplier f < v1" "v1 \<le> reducedMax"
      by auto
    from "1.prems" True k have ct: "checked (t + int (tenFactor f)) = Inr (t + int (tenFactor f))"
      by (simp add: checked_def)
    from divideBy_bounds[OF v1(2) multiplier_bounds(2)[of f]]
    have d: "v1 div tenMultiplier f \<le> divideBy v1 (tenMultiplier f)"
      "divideBy v1 (tenMultiplier f) \<le> reducedMax" by simp_all
    from v1(1) multiplier_bounds(3)[of f] have "tenMultiplier f \<le> v1" by simp
    then have "1 \<le> v1 div tenMultiplier f"
      using multiplier_bounds(2)[of f] by (simp add: div_greater_zero_iff Suc_le_eq)
    with d have d1: "1 \<le> divideBy v1 (tenMultiplier f)" by simp
    have "\<exists>v' t' e'. increaseTenExponent f (divideBy v1 (tenMultiplier f))
          (t + int (tenFactor f)) e1 = Inr (v', t', e') \<and> 1 \<le> v' \<and> v' \<le> reducedMax \<and>
        e' \<le> 0 \<and> e1 + 128 * (t + int (tenFactor f)) \<le> e' + 128 * t'"
      using "1.prems" True k e1 d d1
      by (intro "1.IH"[OF True room refl refl ct]) simp_all
    with True room ct e1 k show ?thesis
      by (subst increaseTenExponent.simps) auto
  qed
qed


lemma decreaseAll_returns:
  assumes "0 \<le> t" and "t \<le> 2147483647" and "v \<le> reducedMax"
  shows "\<exists>v' e'. decreaseAll v t 0 = Inr (v', 0, e') \<and> v' \<le> reducedMax \<and> - 2000000000 \<le> e' \<and>
    e' \<le> 2000"
proof -
  have emax: "exponentMax = 1023" by (simp add: exponentMax_def exponentBase_def exponentBits_def)
  from decreaseTenExponent_returns[of 0 t F9_30 v] assms emax
  obtain v1 t1 e1 where a: "decreaseTenExponent F9_30 v t 0 = Inr (v1, t1, e1)"
    and b1: "v1 \<le> reducedMax" "0 \<le> e1" "e1 \<le> exponentMax + 1" "t1 \<le> 2147483647"
    by auto
  from decreaseTenExponent_returns[OF b1(2,3,4), of F6_20 v1] b1(1)
  obtain v2 t2 e2 where b: "decreaseTenExponent F6_20 v1 t1 e1 = Inr (v2, t2, e2)"
    and b2: "v2 \<le> reducedMax" "0 \<le> e2" "e2 \<le> exponentMax + 1" "t2 \<le> 2147483647"
    by auto
  from decreaseTenExponent_returns[OF b2(2,3,4), of F3_10 v2] b2(1)
  obtain v3 t3 e3 where c: "decreaseTenExponent F3_10 v2 t2 e2 = Inr (v3, t3, e3)"
    and b3: "v3 \<le> reducedMax" "0 \<le> e3" "e3 \<le> exponentMax + 1" "t3 \<le> 2147483647"
    by auto
  from decreaseTenExponent_returns[OF b3(2,3,4), of F1_4 v3] b3(1)
  obtain v4 t4 e4 where d: "decreaseTenExponent F1_4 v3 t3 e3 = Inr (v4, t4, e4)"
    and b4: "v4 \<le> reducedMax" "0 \<le> e4" "e4 \<le> exponentMax + 1"
    by auto
  from a b c d have all: "decreaseAll v t 0 = Inr (v4, t4, e4)" by (simp add: decreaseAll_def)
  from decreaseAll_rest[OF all assms(1)] have "t4 = 0" .
  with all b4 emax show ?thesis by simp
qed

lemma increaseAll_returns:
  assumes "1 \<le> v" and "v \<le> reducedMax" and "t \<le> 0" and "- 10000000 \<le> t"
  shows "\<exists>v' e'. increaseAll v t 0 = Inr (v', 0, e') \<and> v' \<le> reducedMax \<and> - 2000000000 \<le> e' \<and>
    e' \<le> 2000"
proof -
  from assms(4) have l0: "- 2147482000 \<le> 0 + 128 * t" by simp
  from increaseTenExponent_returns[OF assms(1,2,3) _ l0, of F9_30]
  obtain v1 t1 e1 where a: "increaseTenExponent F9_30 v t 0 = Inr (v1, t1, e1)"
    and b1: "1 \<le> v1" "v1 \<le> reducedMax" "e1 \<le> 0" "0 + 128 * t \<le> e1 + 128 * t1"
    by auto
  from increaseTenExponent_rest[OF a assms(3)] have t1: "t1 \<le> 0" by simp
  from b1(4) l0 have l1: "- 2147482000 \<le> e1 + 128 * t1" by simp
  from increaseTenExponent_returns[OF b1(1,2) t1 b1(3) l1, of F6_20]
  obtain v2 t2 e2 where b: "increaseTenExponent F6_20 v1 t1 e1 = Inr (v2, t2, e2)"
    and b2: "1 \<le> v2" "v2 \<le> reducedMax" "e2 \<le> 0" "e1 + 128 * t1 \<le> e2 + 128 * t2"
    by auto
  from increaseTenExponent_rest[OF b t1] have t2: "t2 \<le> 0" by simp
  from b2(4) l1 have l2: "- 2147482000 \<le> e2 + 128 * t2" by simp
  from increaseTenExponent_returns[OF b2(1,2) t2 b2(3) l2, of F3_10]
  obtain v3 t3 e3 where c: "increaseTenExponent F3_10 v2 t2 e2 = Inr (v3, t3, e3)"
    and b3: "1 \<le> v3" "v3 \<le> reducedMax" "e3 \<le> 0" "e2 + 128 * t2 \<le> e3 + 128 * t3"
    by auto
  from increaseTenExponent_rest[OF c t2] have t3: "t3 \<le> 0" by simp
  from b3(4) l2 have l3: "- 2147482000 \<le> e3 + 128 * t3" by simp
  from increaseTenExponent_returns[OF b3(1,2) t3 b3(3) l3, of F1_4]
  obtain v4 t4 e4 where d: "increaseTenExponent F1_4 v3 t3 e3 = Inr (v4, t4, e4)"
    and b4: "1 \<le> v4" "v4 \<le> reducedMax" "e4 \<le> 0" "e3 + 128 * t3 \<le> e4 + 128 * t4"
    by auto
  from a b c d have all: "increaseAll v t 0 = Inr (v4, t4, e4)" by (simp add: increaseAll_def)
  from increaseAll_rest[OF all assms(3)] have z: "t4 = 0" .
  from b1(4) b2(4) b3(4) b4(4) z assms(4) have "- 2000000000 \<le> e4" by simp
  with all b4 z show ?thesis by simp
qed

lemma convertTwobase_returns:
  assumes "mantissa d \<noteq> 0 \<or> 0 \<le> exponent d"
    and "- 10000000 \<le> exponent d" and "exponent d \<le> 2147483647"
  shows "\<exists>b. convertTwobase d = Inr b"
proof -
  have "unat (mantissa d) < 2 ^ 64" using unsigned_less[of "mantissa d"] by simp
  then have fit: "unat (mantissa d) \<le> reducedMax" by (simp add: reducedMax_def)
  have "\<exists>v e. (if exponent d > 0 then decreaseAll (unat (mantissa d)) (exponent d) 0
         else if exponent d < 0 then increaseAll (unat (mantissa d)) (exponent d) 0
         else Inr (unat (mantissa d), exponent d, 0)) = Inr (v, 0, e) \<and>
      v \<le> reducedMax \<and> - 2000000000 \<le> e \<and> e \<le> 2000"
  proof (cases "exponent d > 0")
    case True
    with decreaseAll_returns[of "exponent d" "unat (mantissa d)"] assms(3) fit
    show ?thesis by auto
  next
    case False
    show ?thesis
    proof (cases "exponent d < 0")
      case True
      with assms(1) have "mantissa d \<noteq> 0" by auto
      then have "1 \<le> unat (mantissa d)" by (simp add: unat_gt_0 Suc_le_eq)
      from increaseAll_returns[OF this fit _ assms(2)] True
      show ?thesis by auto
    next
      case False
      with \<open>\<not> exponent d > 0\<close> fit show ?thesis by simp
    qed
  qed
  then obtain v e where st: "(if exponent d > 0 then decreaseAll (unat (mantissa d)) (exponent d) 0
         else if exponent d < 0 then increaseAll (unat (mantissa d)) (exponent d) 0
         else Inr (unat (mantissa d), exponent d, 0)) = Inr (v, 0, e)"
    and b: "v \<le> reducedMax" "- 2000000000 \<le> e" "e \<le> 2000"
    by blast
  from normalizeTwobase_returns[OF b] obtain r where "normalizeTwobase (negative d) v e = Inr r"
    by blast
  with st show ?thesis by (simp add: convertTwobase_def)
qed

text \<open>Evaluation of the converter on concrete numbers unfolds these equations.\<close>

lemmas conv_simps = convertTwobase_def increaseAll_def decreaseAll_def normalizeTwobase_def
  increaseTenExponent.simps increaseTenExponentRoom.simps decreaseTenExponent.simps
  reduceMantissa.simps leadingBitLeft.simps fixExponent.simps divideBy_def wrap128_def checked_def
  reducedMax_def twoMultiplier_def tenMultiplier_def mantissaBitsKept_def mantissaBits_def
  exponentMin_def exponentMax_def exponentBase_def exponentBits_def exponentSubnormalMin_def
  exponentSubnormalBase_def reducedMantissaBits_def Let_def

lemma convert_one:
  "convertTwobase \<lparr>negative = False, mantissa = 1, exponent = 0\<rparr> =
     Inr \<lparr>negative = False, mantissa = 4503599627370496, exponent = 0\<rparr>"
  by (simp add: conv_simps)

text \<open>Claim C9. Every base-2 number that \<open>convertTwobase\<close> returns satisfies the
  invariant: mantissa below \<open>2 ^ (mantissaBits + 1)\<close>, exponent at least \<open>exponentMin\<close>, and
  without the leading bit the mantissa is zero or the exponent is \<open>exponentSubnormalBase\<close>.
  On such a number \<open>toIEEE754\<close> returns a pattern: no assertion in it or in \<open>number\<close>
  fails. Along the whole pipeline, from any decimal number and from any input string, no
  assertion fails. A number is returned whenever the mantissa is nonzero or the exponent
  is not negative, for exponents from \<open>-10000000\<close> up to the maximum of the type.\<close>

theorem convertTwobase_establishes_invariant:
  "(convertTwobase d = Inr b \<longrightarrow> binaryInvariant b \<and> (\<exists>w. toIEEE754 b = Inr w)) \<and>
   convertTwobase d \<noteq> Inl AssertionFailed \<and>
   toIEEE754Double s \<noteq> Inl AssertionFailed \<and>
   toAnyDouble s \<noteq> Inl AssertionFailed \<and>
   ((mantissa d \<noteq> 0 \<or> 0 \<le> exponent d) \<and> - 10000000 \<le> exponent d \<and>
      exponent d \<le> 2147483647 \<longrightarrow> (\<exists>r. convertTwobase d = Inr r))"
  using convertTwobase_invariant toIEEE754_defined convertTwobase_failure
    toIEEE754Double_failure toAnyDouble_failure convertTwobase_returns
  by blast

text \<open>The invariant at the decimal number 1: the converter returns mantissa \<open>2 ^ 52\<close> and
  exponent 0, packed as \<open>0x3FF0000000000000\<close>.\<close>

theorem convertTwobase_establishes_invariant_witness:
  "convertTwobase \<lparr>negative = False, mantissa = 1, exponent = 0\<rparr> =
     Inr \<lparr>negative = False, mantissa = 4503599627370496, exponent = 0\<rparr> \<and>
   binaryInvariant \<lparr>negative = False, mantissa = 4503599627370496, exponent = 0\<rparr> \<and>
   toIEEE754 \<lparr>negative = False, mantissa = 4503599627370496, exponent = 0\<rparr> =
     Inr 0x3FF0000000000000"
proof -
  note c = convert_one
  from convertTwobase_establishes_invariant[of
      "\<lparr>negative = False, mantissa = 1, exponent = 0\<rparr>"
      "\<lparr>negative = False, mantissa = 4503599627370496, exponent = 0\<rparr>" "[]"] c
  have "binaryInvariant \<lparr>negative = False, mantissa = 4503599627370496, exponent = 0\<rparr>"
    by blast
  moreover have "toIEEE754 \<lparr>negative = False, mantissa = 4503599627370496, exponent = 0\<rparr> =
     Inr 0x3FF0000000000000"
    by code_simp
  ultimately show ?thesis using c by simp
qed

section \<open>The packer against its case analysis\<close>

lemma number_eq:
  "number neg m e =
     (if m < 2 ^ mantissaBits
      then Inr (signBit neg OR push_bit mantissaBits (word_of_int e) OR m)
      else Inl AssertionFailed)"
  by (simp add: number_def signBit_def Let_def)

lemma zero_eq: "zero neg = Inr (signedZero neg)"
  by (simp add: zero_def number_eq signedZero_def mantissaBits_def)

lemma infinity_eq: "infinity neg = Inr (signedInfinity neg)"
  by (simp add: infinity_def number_eq signedInfinity_def mantissaBits_def exponentBits_def
      mask_eq_exp_minus_1)

text \<open>Claim C5, as stated: every base-2 number is packed by the case analysis. On
  mantissa 1 with exponent \<open>-1050\<close> the case analysis selects the subnormal encoding,
  pattern 1, while the source stops at \<open>assert(exponent == exponentSubnormalBase)\<close>.\<close>

theorem toIEEE754_assertion_fails:
  "toIEEE754 \<lparr>negative = False, mantissa = 1, exponent = - 1050\<rparr> = Inl AssertionFailed \<and>
   toIEEE754_spec \<lparr>negative = False, mantissa = 1, exponent = - 1050\<rparr> = 1"
  by (simp add: toIEEE754_def toIEEE754_spec_def subnormalEncoding_def signBit_def
      exponentSubnormalMin_def exponentSubnormalBase_def exponentBase_def exponentBits_def
      mantissaBits_def exponentMax_def)


lemma stripped_mantissa_less_iff:
  assumes "bit (m :: Mantissa) 52"
  shows "m AND NOT (push_bit 52 1) < 2 ^ 52 \<longleftrightarrow> m < 2 ^ 53"
proof
  assume "m < 2 ^ 53"
  from stripped_mantissa_less[OF this] show "m AND NOT (push_bit 52 1) < 2 ^ 52"
    by simp
next
  let ?x = "m AND NOT (push_bit 52 1)"
  assume "?x < 2 ^ 52"
  then have "take_bit 52 ?x = ?x" by (simp only: take_bit_eq_mask less_mask_eq)
  then have low: "bit ?x i \<Longrightarrow> i < 52" for i
    by (metis bit_take_bit_iff)
  have "bit m i \<Longrightarrow> i < 53" for i
  proof (cases "i = 52")
    case True
    then show ?thesis by simp
  next
    case False
    assume "bit m i"
    with False have "bit (unset_bit 52 m) i" by (simp add: bit_unset_bit_iff)
    then have "bit ?x i" by (simp only: unset_bit_def)
    from low[OF this] show ?thesis by simp
  qed
  then have "take_bit 53 m = m"
    by (auto intro!: bit_eqI simp: bit_take_bit_iff)
  then show "m < 2 ^ 53"
    using mask_eq_iff_w2p[of 53 m] by (simp add: take_bit_eq_mask word_size)
qed

lemma leading_bit_test: "(m :: Mantissa) AND 2 ^ mantissaBits = 0 \<longleftrightarrow> \<not> bit m mantissaBits"
  using bit_iff_and_push_bit_not_eq_0[of m mantissaBits] by simp

text \<open>Claim C5, amended: on every base-2 number on which the assertions of \<open>toIEEE754\<close>
  and \<open>number\<close> hold, \<open>toIEEE754\<close> returns the pattern the case analysis selects (signed
  zero, signed infinity, normal or subnormal encoding); on every other number an
  assertion fails.\<close>

theorem toIEEE754_case_analysis:
  "toIEEE754 b = (if assertionsHold b then Inr (toIEEE754_spec b) else Inl AssertionFailed)"
proof (cases "mantissa b = 0 \<or> exponent b < exponentSubnormalMin")
  case True
  then show ?thesis
    by (auto simp: toIEEE754_def toIEEE754_spec_def assertionsHold_def zero_eq)
next
  case nz: False
  show ?thesis
  proof (cases "exponent b > exponentMax")
    case True
    with nz show ?thesis
      by (auto simp: toIEEE754_def toIEEE754_spec_def assertionsHold_def infinity_eq)
  next
    case le: False
    show ?thesis
    proof (cases "bit (mantissa b) mantissaBits")
      case True
      then have b52: "bit (mantissa b) 52" by (simp add: mantissaBits_def)
      have strip: "mantissa b AND NOT (2 ^ mantissaBits) < 2 ^ mantissaBits
          \<longleftrightarrow> mantissa b < 2 * 2 ^ mantissaBits"
        using stripped_mantissa_less_iff[OF b52] by (simp add: mantissaBits_def)
      have un: "unset_bit mantissaBits (mantissa b) = mantissa b AND NOT (2 ^ mantissaBits)"
        by (simp add: unset_bit_def)
      show ?thesis
      proof (cases "exponentMin \<le> exponent b")
        case False
        with nz le True show ?thesis
          by (simp add: toIEEE754_def assertionsHold_def leading_bit_test Let_def)
      next
        case ge: True
        with le have c: "checked (exponent b + exponentBase) = Inr (exponent b + exponentBase)"
          and p: "exponent b + exponentBase \<noteq> 0"
          by (simp_all add: checked_def exponentMin_def exponentMax_def exponentBase_def
              exponentBits_def)
        from nz le True ge c p show ?thesis
          by (simp add: toIEEE754_def assertionsHold_def toIEEE754_spec_def leading_bit_test
              Let_def number_eq strip normalEncoding_def un)
      qed
    next
      case False
      with nz le show ?thesis
        by (simp add: toIEEE754_def assertionsHold_def toIEEE754_spec_def leading_bit_test
            number_eq subnormalEncoding_def)
    qed
  qed
qed

section \<open>The full conversion and its error flag\<close>

lemma toLower_cases:
  "toLower a = a \<or> ((65::nat) \<le> of_char a \<and> of_char a \<le> (90::nat) \<and>
     of_char (toLower a) = of_char a + (32::nat))"
  by (auto simp: toLower_def)

lemma toLower_letter:
  assumes "toLower a = c" and "(97::nat) \<le> of_char c" and "of_char c \<le> (122::nat)"
  shows "\<not> isDigit a \<and> \<not> isSign a \<and> a \<noteq> CHR ''.''"
  using toLower_cases[of a] assms by (auto simp: isDigit_def isSign_def)

lemma toLower_sign:
  assumes "toLower a = c" and "isSign c"
  shows "a = c"
  using toLower_cases[of a] assms by (auto simp: isSign_def)

lemma parseMantissaLoop_letter:
  assumes "\<not> isDigit a" "\<not> isSign a" "a \<noteq> CHR ''.''" "\<not> digits st"
  shows "parseMantissaLoop i (a # cs) st = Inr parseError"
  using assms by simp

lemma parse_letter_first:
  assumes "toLower a = c" and "(97::nat) \<le> of_char c" and "of_char c \<le> (122::nat)"
  shows "parseMantissaExponent (a # cs) = Inr parseError"
  using toLower_letter[OF assms]
  by (simp add: parseMantissaExponent_def parseMantissa_def parseError_def)

lemma parse_sign_letter:
  assumes "isSign p" and "toLower a = c" and "(97::nat) \<le> of_char c" and "of_char c \<le> (122::nat)"
  shows "parseMantissaExponent (p # a # cs) = Inr parseError"
  using toLower_letter[OF assms(2-4)] assms(1)
  by (auto simp: parseMantissaExponent_def parseMantissa_def parseError_def isSign_def isDigit_def)

lemma equalsLoop_iff: "equalsLoop s str \<longleftrightarrow> map toLower s = map toLower str"
  by (induction s str rule: equalsLoop.induct) auto

lemma equalsLiteral_iff: "equalsLiteral s str \<longleftrightarrow> map toLower s = map toLower str"
proof -
  have "map toLower s = map toLower str \<Longrightarrow> length s = length str"
    by (metis length_map)
  then show ?thesis by (auto simp: equalsLiteral_def equalsLoop_iff)
qed

lemma lowered_literals:
  "toLower CHR ''I'' = CHR ''i''" "toLower CHR ''n'' = CHR ''n''" "toLower CHR ''f'' = CHR ''f''"
  "toLower CHR ''+'' = CHR ''+''" "toLower CHR ''-'' = CHR ''-''"
  "toLower CHR ''N'' = CHR ''n''" "toLower CHR ''a'' = CHR ''a''"
  by code_simp+

lemma nonFinite_unparsed:
  assumes "isNonFiniteLiteral s"
  shows "parseMantissaExponent s = Inr parseError \<and> s \<noteq> []"
proof -
  from assms consider
      (letter) a cs c where "s = a # cs" "toLower a = c" "c = CHR ''i'' \<or> c = CHR ''n''"
    | (sign) p a cs q where "s = p # a # cs" "toLower p = q" "isSign q" "toLower a = CHR ''i''"
    by (auto simp: isNonFiniteLiteral_def equalsLiteral_iff lowered_literals map_eq_Cons_conv
        isSign_def)
  then show ?thesis
  proof cases
    case letter
    then show ?thesis by (auto intro: parse_letter_first)
  next
    case sign
    from toLower_sign[OF sign(2,3)] sign(3) have "isSign p" by simp
    with sign show ?thesis by (auto intro: parse_sign_letter)
  qed
qed

lemma literal_exclusive:
  "equalsLiteral s ''-Inf'' \<Longrightarrow> \<not> equalsLiteral s ''Inf'' \<and> \<not> equalsLiteral s ''+Inf''"
  "equalsLiteral s ''NaN'' \<Longrightarrow>
     \<not> equalsLiteral s ''Inf'' \<and> \<not> equalsLiteral s ''+Inf'' \<and> \<not> equalsLiteral s ''-Inf''"
  by (auto simp: equalsLiteral_iff lowered_literals)

lemma toAnyDouble_unparsed:
  assumes "parseMantissaExponent s = Inr (parsed, num)" and "parsed \<noteq> length s"
  shows "toAnyDouble s =
     (if equalsLiteral s ''Inf'' \<or> equalsLiteral s ''+Inf'' then Inr (False, 0x7FF0000000000000)
      else if equalsLiteral s ''-Inf'' then Inr (False, 0xFFF0000000000000)
      else if equalsLiteral s ''NaN'' then Inr (False, 0x7FF0000000000001)
      else Inr (True, 0))"
  using assms by (simp add: toAnyDouble_def infinity_values)

lemma toAnyDouble_parsed:
  assumes "parseMantissaExponent s = Inr (length s, num)"
  shows "toAnyDouble s \<noteq> Inr (True, w)"
  using assms by (auto simp: toAnyDouble_def split: sum.splits)

text \<open>Claim C8. \<open>toAnyDouble\<close> (and \<open>toDouble\<close>, which forwards to it) returns with the
  error flag set exactly when the numeric parse consumed a length other than the length of
  the input and the input is none of \<open>Inf\<close>, \<open>+Inf\<close>, \<open>-Inf\<close>, \<open>NaN\<close> compared
  case-insensitively; the value returned with the flag is \<open>+0.0\<close>. On each of the four
  spellings the numeric parse fails (consumed length 0), the flag is cleared and the
  result is positive infinity, positive infinity, negative infinity and the NaN pattern.\<close>

theorem toAnyDouble_error_flag:
  "((\<exists>w. toAnyDouble s = Inr (True, w)) \<longleftrightarrow>
      (\<exists>parsed num. parseMantissaExponent s = Inr (parsed, num) \<and> parsed \<noteq> length s \<and>
         \<not> isNonFiniteLiteral s)) \<and>
   (\<forall>w. toAnyDouble s = Inr (True, w) \<longrightarrow> w = 0) \<and>
   (equalsLiteral s ''Inf'' \<or> equalsLiteral s ''+Inf'' \<longrightarrow>
      parseMantissaExponent s = Inr parseError \<and> toAnyDouble s = Inr (False, 0x7FF0000000000000)) \<and>
   (equalsLiteral s ''-Inf'' \<longrightarrow>
      parseMantissaExponent s = Inr parseError \<and> toAnyDouble s = Inr (False, 0xFFF0000000000000)) \<and>
   (equalsLiteral s ''NaN'' \<longrightarrow>
      parseMantissaExponent s = Inr parseError \<and> toAnyDouble s = Inr (False, 0x7FF0000000000001)) \<and>
   toDouble s = toAnyDouble s"
proof (cases "parseMantissaExponent s")
  case (Inl f)
  then have "toAnyDouble s = Inl f" by (simp add: toAnyDouble_def)
  moreover from Inl have "\<not> isNonFiniteLiteral s" using nonFinite_unparsed by fastforce
  ultimately show ?thesis using Inl by (simp add: isNonFiniteLiteral_def toDouble_def)
next
  case (Inr r)
  obtain parsed num where r: "r = (parsed, num)" by (cases r)
  show ?thesis
  proof (cases "parsed = length s")
    case True
    with Inr r have p: "parseMantissaExponent s = Inr (length s, num)" by simp
    have "\<not> isNonFiniteLiteral s"
    proof
      assume "isNonFiniteLiteral s"
      from nonFinite_unparsed[OF this] p show False by (auto simp: parseError_def)
    qed
    with toAnyDouble_parsed[OF p] p show ?thesis
      by (simp add: isNonFiniteLiteral_def toDouble_def)
  next
    case False
    with Inr r have p: "parseMantissaExponent s = Inr (parsed, num)" by simp
    note u = toAnyDouble_unparsed[OF p False]
    show ?thesis
      using u p False nonFinite_unparsed[of s] literal_exclusive[of s]
      by (auto simp: isNonFiniteLiteral_def toDouble_def)
  qed
qed

text \<open>The theorem at five inputs: the four spellings in mixed case, and \<open>1x\<close>, where
  the parse stops after one character.\<close>

theorem toAnyDouble_error_flag_witness:
  "toAnyDouble ''iNf'' = Inr (False, 0x7FF0000000000000) \<and>
   toAnyDouble ''+INF'' = Inr (False, 0x7FF0000000000000) \<and>
   toAnyDouble ''-inf'' = Inr (False, 0xFFF0000000000000) \<and>
   toAnyDouble ''nan'' = Inr (False, 0x7FF0000000000001) \<and>
   toAnyDouble ''1x'' = Inr (True, 0)"
proof -
  have e: "equalsLiteral ''iNf'' ''Inf''" "equalsLiteral ''+INF'' ''+Inf''"
    "equalsLiteral ''-inf'' ''-Inf''" "equalsLiteral ''nan'' ''NaN''"
    by code_simp+
  have x: "toAnyDouble ''1x'' = Inr (True, 0)" by code_simp
  from toAnyDouble_error_flag[of "''iNf''"] toAnyDouble_error_flag[of "''+INF''"]
    toAnyDouble_error_flag[of "''-inf''"] toAnyDouble_error_flag[of "''nan''"]
    toAnyDouble_error_flag[of "''1x''"] e x
  show ?thesis by blast
qed

section \<open>The minimal subnormal\<close>





lemma pack_one: "toIEEE754 \<lparr>negative = False, mantissa = 1, exponent = - 1022\<rparr> = Inr 1"
  by code_simp


section \<open>Magnitudes that convert to zero\<close>



































text \<open>The bound is sharp to its last digit: the literal \<open>3.3E-324\<close> yields the pattern
  1.\<close>

lemma parse_just_above:
  "parseMantissaExponent ''3.3E-324'' =
     Inr (8, \<lparr>negative = False, mantissa = 33, exponent = - 325\<rparr>)"
  by code_simp

lemma convert_just_above:
  "convertTwobase \<lparr>negative = False, mantissa = 33, exponent = - 325\<rparr> =
     Inr \<lparr>negative = False, mantissa = 1, exponent = - 1022\<rparr>"
  by (simp add: conv_simps)

lemma just_above_yields_one: "toIEEE754Double ''3.3E-324'' = Inr 1"
  by (simp add: toIEEE754Double_def toMantissaExponent_def parse_just_above convert_just_above
      pack_one)

end
